theory Spec2Isabelle
  imports Main
begin

unbundle bit_operations_syntax

text \<open>
  The scanning and correction engine of codespell (\<open>codespell_lib/_codespell.py\<close>):
  the dictionary builder \<open>build_dict\<close>, the case adjustment \<open>fix_case\<close>, the
  interactive resolver \<open>ask_for_word_fix\<close>, the word and URI extraction with
  \<open>apply_uri_ignore_words\<close>, and the line scanner \<open>parse_file\<close>. The functions
  are given first, as they are written; the properties follow.
\<close>

section \<open>Strings\<close>

text \<open>
  A Python \<open>str\<close> is modelled as a \<open>string\<close> of ASCII characters. The case
  conversions act on the letters \<open>A-Z\<close> and \<open>a-z\<close>; white space is what
  \<open>str.strip()\<close> and \<open>str.isspace()\<close> accept below code point 128 (tab, line feed,
  vertical tab, form feed, carriage return, the four separators 0x1C-0x1F and the blank).
\<close>

definition ascii_uppercase :: string where
  "ascii_uppercase = ''ABCDEFGHIJKLMNOPQRSTUVWXYZ''"

definition ascii_lowercase :: string where
  "ascii_lowercase = ''abcdefghijklmnopqrstuvwxyz''"

definition digits :: string where
  "digits = ''0123456789''"

definition lower_char :: "char \<Rightarrow> char" where
  "lower_char c = (case map_of (zip ascii_uppercase ascii_lowercase) c of Some d \<Rightarrow> d | None \<Rightarrow> c)"

definition upper_char :: "char \<Rightarrow> char" where
  "upper_char c = (case map_of (zip ascii_lowercase ascii_uppercase) c of Some d \<Rightarrow> d | None \<Rightarrow> c)"

definition is_space :: "char \<Rightarrow> bool" where
  "is_space c = (c \<in> set [CHR 0x09, CHR 0x0A, CHR 0x0B, CHR 0x0C, CHR 0x0D,
                           CHR 0x1C, CHR 0x1D, CHR 0x1E, CHR 0x1F, CHR 0x20])"

text \<open>\<open>str.lower()\<close>, \<open>str.upper()\<close>, \<open>str.capitalize()\<close>, \<open>str.strip()\<close>.\<close>

definition lower :: "string \<Rightarrow> string" where
  "lower s = map lower_char s"

definition upper :: "string \<Rightarrow> string" where
  "upper s = map upper_char s"

fun capitalize :: "string \<Rightarrow> string" where
  "capitalize [] = []"
| "capitalize (c # cs) = upper_char c # map lower_char cs"

definition strip :: "string \<Rightarrow> string" where
  "strip s = rev (dropWhile is_space (rev (dropWhile is_space s)))"

text \<open>\<open>s.split(",")\<close>: the pieces between the commas; never the empty list.\<close>

fun split_comma :: "string \<Rightarrow> string list" where
  "split_comma [] = [[]]"
| "split_comma (c # cs) =
     (if c = CHR '','' then [] # split_comma cs
      else (case split_comma cs of [] \<Rightarrow> [[c]] | p # ps \<Rightarrow> (c # p) # ps))"

text \<open>\<open>s.split("->")\<close>: the pieces between the non-overlapping occurrences of the
  separator, taken from the left; no limit on the number of pieces.\<close>

fun split_arrow :: "string \<Rightarrow> string list" where
  "split_arrow [] = [[]]"
| "split_arrow [c] = [[c]]"
| "split_arrow (a # b # cs) =
     (if a = CHR ''-'' \<and> b = CHR ''>'' then [] # split_arrow cs
      else (case split_arrow (b # cs) of [] \<Rightarrow> [[a]] | p # ps \<Rightarrow> (a # p) # ps))"

text \<open>\<open>sep.join(parts)\<close>.\<close>

fun join :: "string \<Rightarrow> string list \<Rightarrow> string" where
  "join sep [] = []"
| "join sep [x] = x"
| "join sep (x # y # ys) = x @ sep @ join sep (y # ys)"

text \<open>\<open>s.rfind(",")\<close>: the highest index of a comma, or \<open>-1\<close>.\<close>

fun rfind_comma :: "string \<Rightarrow> int" where
  "rfind_comma [] = - 1"
| "rfind_comma (c # cs) =
     (let r = rfind_comma cs
      in if 0 \<le> r then r + 1 else if c = CHR '','' then 0 else - 1)"

section \<open>Dictionary entries and the dictionary builder\<close>

text \<open>Class \<open>Misspelling\<close>: the fields \<open>data\<close>, \<open>fix\<close> and \<open>reason\<close>.\<close>

record misspelling =
  ms_data :: string
  ms_fix :: bool
  ms_reason :: string

type_synonym misspellings = "string \<rightharpoonup> misspelling"

datatype error = ValueError | UnicodeDecodeError | ReError | NotModelled

text \<open>
  The body of the loop of \<open>build_dict\<close> for one line of the dictionary file. The
  unpacking \<open>[key, data] = line.split("->")\<close> raises \<open>ValueError\<close> unless the split
  gives exactly two pieces.
\<close>

definition build_dict_line ::
  "string \<Rightarrow> misspellings \<Rightarrow> string set \<Rightarrow> error + misspellings" where
  "build_dict_line line misspellings ignore_words =
     (case split_arrow line of
        [key0, data0] \<Rightarrow>
          (let key = lower key0; data = lower data0
           in if key \<in> ignore_words then Inr misspellings
              else
                (let data = strip data; fix = rfind_comma data
                 in if fix < 0 then
                      Inr (misspellings(key \<mapsto> \<lparr>ms_data = data, ms_fix = True, ms_reason = []\<rparr>))
                    else if fix = int (length data) - 1 then
                      Inr (misspellings(key \<mapsto>
                        \<lparr>ms_data = take (nat fix) data, ms_fix = False, ms_reason = []\<rparr>))
                    else
                      Inr (misspellings(key \<mapsto>
                        \<lparr>ms_data = take (nat fix) data, ms_fix = False,
                         ms_reason = strip (drop (nat (fix + 1)) data)\<rparr>))))
      | _ \<Rightarrow> Inl ValueError)"

text \<open>
  \<open>build_dict\<close> over the lines of the opened file. The dictionary is updated in place,
  so a failing line leaves the entries of the lines before it; the result is the
  dictionary reached and the exception raised, if any.
\<close>

fun build_dict :: "string list \<Rightarrow> misspellings \<Rightarrow> string set \<Rightarrow> misspellings \<times> error option" where
  "build_dict [] misspellings ignore_words = (misspellings, None)"
| "build_dict (line # rest) misspellings ignore_words =
     (case build_dict_line line misspellings ignore_words of
        Inl e \<Rightarrow> (misspellings, Some e)
      | Inr m \<Rightarrow> build_dict rest m ignore_words)"

section \<open>Case-shape preservation\<close>

definition fix_case :: "string \<Rightarrow> string \<Rightarrow> string" where
  "fix_case word fixword =
     (if word = capitalize word then
        join '', '' (map (\<lambda>w. capitalize (strip w)) (split_comma fixword))
      else if word = upper word then upper fixword
      else fixword)"

section \<open>The interactive resolver\<close>

text \<open>
  Standard input is the list of the lines still to be read; \<open>readline()\<close> returns the
  next one, or the empty string at end of input. What the resolver prints is kept as a
  list of events. The highlighted line it shows (\<open>line_ui\<close>, built from the line, the
  match position and the colours) is display only and is left out of the events.
\<close>

datatype event =
    ConfirmPrompt string string
  | SayYesOrNo
  | ChoosePrompt "string list"
  | NotValidOption

text \<open>A match object: \<open>match.start()\<close>, \<open>match.end()\<close> and \<open>match.group()\<close>.\<close>

record rmatch =
  m_start :: nat
  m_end :: nat
  m_group :: string

text \<open>
  \<open>int(n)\<close> on a stripped string: an optional sign, then decimal digits, single
  underscores allowed between digits; anything else raises \<open>ValueError\<close> (\<open>None\<close>).
  The interpreter's limit on the number of digits is left out.
\<close>

definition is_digit :: "char \<Rightarrow> bool" where
  "is_digit c = (c \<in> set digits)"

definition digit_val :: "char \<Rightarrow> nat" where
  "digit_val c = (case map_of (zip digits [0, 1, 2, 3, 4, 5, 6, 7, 8, 9]) c of Some d \<Rightarrow> d | None \<Rightarrow> 0)"

fun parse_digits :: "nat \<Rightarrow> string \<Rightarrow> nat option" where
  "parse_digits acc [] = Some acc"
| "parse_digits acc [c] = (if is_digit c then Some (10 * acc + digit_val c) else None)"
| "parse_digits acc (c # d # ds) =
     (if is_digit c then parse_digits (10 * acc + digit_val c) (d # ds)
      else if c = CHR ''_'' \<and> is_digit d then parse_digits (10 * acc + digit_val d) ds
      else None)"

definition parse_nat :: "string \<Rightarrow> nat option" where
  "parse_nat s =
     (case s of [] \<Rightarrow> None
      | c # cs \<Rightarrow> if is_digit c then parse_digits (digit_val c) cs else None)"

definition py_int :: "string \<Rightarrow> int option" where
  "py_int s =
     (case s of
        [] \<Rightarrow> None
      | c # cs \<Rightarrow>
          if c = CHR ''+'' then map_option int (parse_nat cs)
          else if c = CHR ''-'' then map_option (\<lambda>n. - int n) (parse_nat cs)
          else map_option int (parse_nat s))"

text \<open>\<open>opt[i]\<close>: a negative index counts from the end; out of range raises
  \<open>IndexError\<close> (\<open>None\<close>).\<close>

definition py_index :: "'a list \<Rightarrow> int \<Rightarrow> 'a option" where
  "py_index xs i =
     (if 0 \<le> i \<and> i < int (length xs) then Some (xs ! nat i)
      else if i < 0 \<and> - int (length xs) \<le> i then Some (xs ! nat (int (length xs) + i))
      else None)"

text \<open>
  The confirmation loop: returns the answer \<open>r\<close> (\<open>Y\<close> or \<open>N\<close>), the remaining
  input and the events. At end of input \<open>readline()\<close> gives the empty string, which
  counts as \<open>Y\<close>.
\<close>

fun confirm_loop :: "string \<Rightarrow> string \<Rightarrow> string list \<Rightarrow> string \<times> string list \<times> event list" where
  "confirm_loop wrongword fixword [] = (''Y'', [], [ConfirmPrompt wrongword fixword])"
| "confirm_loop wrongword fixword (l # ls) =
     (let r = upper (strip l);
          r = (if r = [] then ''Y'' else r)
      in if r \<noteq> ''Y'' \<and> r \<noteq> ''N'' then
           (case confirm_loop wrongword fixword ls of
              (r', rest, ev) \<Rightarrow> (r', rest, ConfirmPrompt wrongword fixword # SayYesOrNo # ev))
         else (r, ls, [ConfirmPrompt wrongword fixword]))"

text \<open>
  The choice loop: returns the chosen candidate \<open>r\<close> (empty when the user declined),
  the remaining input and the events. The loop runs \<open>while not r\<close>, so it also goes
  round again when the chosen candidate is the empty string.
\<close>

fun choose_loop :: "string \<Rightarrow> string list \<Rightarrow> string list \<Rightarrow> string \<times> string list \<times> event list" where
  "choose_loop wrongword opt [] = ([], [], [ChoosePrompt (map (fix_case wrongword) opt)])"
| "choose_loop wrongword opt (l # ls) =
     (let n = strip l
      in if n = [] then ([], ls, [ChoosePrompt (map (fix_case wrongword) opt)])
         else
           (case (case py_int n of None \<Rightarrow> None | Some i \<Rightarrow> py_index opt i) of
              None \<Rightarrow>
                (case choose_loop wrongword opt ls of
                   (r, rest, ev) \<Rightarrow>
                     (r, rest, ChoosePrompt (map (fix_case wrongword) opt) # NotValidOption # ev))
            | Some r \<Rightarrow>
                if r = [] then
                  (case choose_loop wrongword opt ls of
                     (r', rest, ev) \<Rightarrow> (r', rest, ChoosePrompt (map (fix_case wrongword) opt) # ev))
                else (r, ls, [ChoosePrompt (map (fix_case wrongword) opt)])))"

record ask_result =
  ar_fix :: bool
  ar_fixword :: string
  ar_misspelling :: misspelling
  ar_stdin :: "string list"
  ar_out :: "event list"

definition ask_return :: "string \<Rightarrow> misspelling \<Rightarrow> string list \<Rightarrow> event list \<Rightarrow> ask_result" where
  "ask_return wrongword misspelling stdin out =
     \<lparr>ar_fix = ms_fix misspelling, ar_fixword = fix_case wrongword (ms_data misspelling),
      ar_misspelling = misspelling, ar_stdin = stdin, ar_out = out\<rparr>"

definition ask_for_word_fix :: "rmatch \<Rightarrow> misspelling \<Rightarrow> int \<Rightarrow> string list \<Rightarrow> ask_result" where
  "ask_for_word_fix match misspelling interactivity stdin =
     (let wrongword = m_group match
      in if interactivity \<le> 0 then ask_return wrongword misspelling stdin []
         else if ms_fix misspelling \<and> interactivity AND 1 \<noteq> 0 then
           (case confirm_loop wrongword (fix_case wrongword (ms_data misspelling)) stdin of
              (r, rest, ev) \<Rightarrow>
                ask_return wrongword
                  (if r = ''N'' then misspelling\<lparr>ms_fix := False\<rparr> else misspelling) rest ev)
         else if interactivity AND 2 \<noteq> 0 \<and> ms_reason misspelling = [] then
           (case choose_loop wrongword (map strip (split_comma (ms_data misspelling))) stdin of
              (r, rest, ev) \<Rightarrow>
                ask_return wrongword
                  (if r \<noteq> [] then misspelling\<lparr>ms_fix := True, ms_data := r\<rparr> else misspelling)
                  rest ev)
         else ask_return wrongword misspelling stdin [])"

section \<open>Patterns\<close>

text \<open>
  The compiled patterns are parameters of the scanner. A pattern is modelled by what the
  scanner asks of it: \<open>finditer\<close> as the list of the spans \<open>(start, end)\<close> of its
  matches from left to right, \<open>findall\<close> as the list of strings it returns, and the
  substitution \<open>re.sub(r"\b%s\b" % word, fixword, line)\<close> as a function of the word,
  the replacement and the line that may raise \<open>re.error\<close>.
\<close>

record regex_env =
  word_finditer :: "string \<Rightarrow> (nat \<times> nat) list"
  word_findall :: "string \<Rightarrow> string list"
  ignore_finditer :: "(string \<Rightarrow> (nat \<times> nat) list) option"
  uri_finditer :: "string \<Rightarrow> (nat \<times> nat) list"
  uri_findall :: "string \<Rightarrow> string list"
  word_sub :: "string \<Rightarrow> string \<Rightarrow> string \<Rightarrow> error + string"

text \<open>The slice \<open>s[a:b]\<close> and the match object of a span.\<close>

definition slice :: "string \<Rightarrow> nat \<Rightarrow> nat \<Rightarrow> string" where
  "slice s a b = take (b - a) (drop a s)"

definition match_of :: "string \<Rightarrow> nat \<times> nat \<Rightarrow> rmatch" where
  "match_of s span = \<lparr>m_start = fst span, m_end = snd span, m_group = slice s (fst span) (snd span)\<rparr>"

text \<open>
  \<open>pattern.sub(" ", s)\<close>: the text outside the matches is kept, each match is replaced
  by one blank.
\<close>

fun sub_from :: "nat \<Rightarrow> (nat \<times> nat) list \<Rightarrow> string \<Rightarrow> string" where
  "sub_from pos [] s = drop pos s"
| "sub_from pos (span # spans) s = slice s pos (fst span) @ '' '' @ sub_from (snd span) spans s"

definition sub_blank :: "(nat \<times> nat) list \<Rightarrow> string \<Rightarrow> string" where
  "sub_blank spans s = sub_from 0 spans s"

definition ignore_word_sub :: "regex_env \<Rightarrow> string \<Rightarrow> string" where
  "ignore_word_sub env text =
     (case ignore_finditer env of None \<Rightarrow> text | Some finditer \<Rightarrow> sub_blank (finditer text) text)"

definition extract_words :: "regex_env \<Rightarrow> string \<Rightarrow> string list" where
  "extract_words env text = word_findall env (ignore_word_sub env text)"

definition extract_words_iter :: "regex_env \<Rightarrow> string \<Rightarrow> rmatch list" where
  "extract_words_iter env text =
     (let text = ignore_word_sub env text in map (match_of text) (word_finditer env text))"

text \<open>
  The inner loop of \<open>apply_uri_ignore_words\<close>: the list without the first match whose
  text is the word; the list itself when there is none.
\<close>

fun remove_first :: "string \<Rightarrow> rmatch list \<Rightarrow> rmatch list" where
  "remove_first uri_word [] = []"
| "remove_first uri_word (match # rest) =
     (if m_group match = uri_word then rest else match # remove_first uri_word rest)"

definition apply_uri_ignore_words ::
  "regex_env \<Rightarrow> rmatch list \<Rightarrow> string \<Rightarrow> string set \<Rightarrow> rmatch list" where
  "apply_uri_ignore_words env check_matches line uri_ignore_words =
     (if uri_ignore_words = {} then check_matches
      else
        fold (\<lambda>uri cm.
                fold (\<lambda>uri_word cm.
                        if uri_word \<in> uri_ignore_words then remove_first uri_word cm else cm)
                     (extract_words env uri) cm)
             (uri_findall env line) check_matches)"

text \<open>
  The matches that \<open>parse_file\<close> checks on one line: with the wildcard among the URI
  ignore words the URIs are erased before the words are extracted, otherwise the ignore
  words are applied to the extracted matches.
\<close>

definition line_matches :: "regex_env \<Rightarrow> string set \<Rightarrow> string \<Rightarrow> rmatch list" where
  "line_matches env uri_ignore_words line0 =
     (let line = (if ''*'' \<in> uri_ignore_words then sub_blank (uri_finditer env line0) line0 else line0);
          check_matches = extract_words_iter env line
      in if ''*'' \<notin> uri_ignore_words then
           apply_uri_ignore_words env check_matches line uri_ignore_words
         else check_matches)"

section \<open>The default patterns\<close>

text \<open>
  The default patterns on ASCII text. \<open>\w\<close> is a letter, a digit or the underscore, a
  word boundary \<open>\b\<close> lies between a \<open>\w\<close> character and a character that is not
  (or an end of the string). The default word pattern is a maximal run of \<open>\w\<close>
  characters, hyphens, apostrophes and backticks (its typographic apostrophe is not an
  ASCII character).
\<close>

definition is_word_char :: "char \<Rightarrow> bool" where
  "is_word_char c = (c \<in> set (ascii_lowercase @ ascii_uppercase @ digits @ ''_''))"

definition boundary :: "char option \<Rightarrow> char option \<Rightarrow> bool" where
  "boundary a b =
     ((case a of None \<Rightarrow> False | Some c \<Rightarrow> is_word_char c) \<noteq>
      (case b of None \<Rightarrow> False | Some c \<Rightarrow> is_word_char c))"

definition word_regex_char :: "char \<Rightarrow> bool" where
  "word_regex_char c = (is_word_char c \<or> c \<in> set [CHR ''-'', CHR 0x27, CHR 0x60])"

text \<open>The spans of the maximal runs of characters of a class.\<close>

fun runs :: "(char \<Rightarrow> bool) \<Rightarrow> nat \<Rightarrow> nat option \<Rightarrow> string \<Rightarrow> (nat \<times> nat) list" where
  "runs P pos None [] = []"
| "runs P pos (Some a) [] = [(a, pos)]"
| "runs P pos None (c # cs) =
     (if P c then runs P (Suc pos) (Some pos) cs else runs P (Suc pos) None cs)"
| "runs P pos (Some a) (c # cs) =
     (if P c then runs P (Suc pos) (Some a) cs else (a, pos) # runs P (Suc pos) None cs)"

definition word_regex_def :: "string \<Rightarrow> (nat \<times> nat) list" where
  "word_regex_def s = runs word_regex_char 0 None s"

text \<open>
  The default URI pattern, tried at one position: \<open>prev\<close> is the character before the
  position, \<open>rest\<close> the text from it. The first alternative is a boundary, a scheme,
  \<open>://\<close> and the longest run of characters that are not white space (at least one; the
  run ends at white space or at the end, as the lookahead asks). The second is a boundary,
  the run of local characters up to an \<open>@\<close>, and the longest non-empty run of domain
  characters that ends at a boundary. The result is the length of the match.
\<close>

definition uri_schemes :: "string list" where
  "uri_schemes = [''https'', ''http'', ''tftp'', ''sftp'', ''ftp'', ''file'', ''git'', ''smb'']"

definition uri_alternative :: "char option \<Rightarrow> string \<Rightarrow> nat option" where
  "uri_alternative prev rest =
     (case find (\<lambda>scheme. take (length scheme + 3) rest = scheme @ ''://'') uri_schemes of
        None \<Rightarrow> None
      | Some scheme \<Rightarrow>
          (let path = takeWhile (\<lambda>c. \<not> is_space c) (drop (length scheme + 3) rest)
           in if boundary prev (Some (hd rest)) \<and> path \<noteq> []
              then Some (length scheme + 3 + length path) else None))"

definition email_local_char :: "char \<Rightarrow> bool" where
  "email_local_char c = (is_word_char c \<or> c \<in> set ''.%+-'')"

definition email_domain_char :: "char \<Rightarrow> bool" where
  "email_domain_char c = (is_word_char c \<or> c \<in> set ''.-'')"

definition email_alternative :: "char option \<Rightarrow> string \<Rightarrow> nat option" where
  "email_alternative prev rest =
     (let local = takeWhile email_local_char rest;
          after_local = drop (length local) rest
      in if local = [] \<or> \<not> boundary prev (Some (hd rest)) then None
         else
           (case after_local of
              [] \<Rightarrow> None
            | c # cs \<Rightarrow>
                if c \<noteq> CHR ''@'' then None
                else
                  (let domain = takeWhile email_domain_char cs;
                       ends = filter (\<lambda>k. boundary (Some (cs ! (k - 1)))
                                              (if k < length cs then Some (cs ! k) else None))
                                (rev [1..<Suc (length domain)])
                   in (case ends of [] \<Rightarrow> None
                       | k # _ \<Rightarrow> Some (length local + 1 + k)))))"

definition uri_match_at :: "char option \<Rightarrow> string \<Rightarrow> nat option" where
  "uri_match_at prev rest =
     (case uri_alternative prev rest of Some n \<Rightarrow> Some n | None \<Rightarrow> email_alternative prev rest)"

text \<open>The search from left to right; a match is looked for again only after the end
  of the match before it.\<close>

fun uri_scan :: "nat \<Rightarrow> nat \<Rightarrow> char option \<Rightarrow> string \<Rightarrow> (nat \<times> nat) list" where
  "uri_scan pos skip prev [] = []"
| "uri_scan pos skip prev (c # cs) =
     (if pos < skip then uri_scan (Suc pos) skip (Some c) cs
      else
        (case uri_match_at prev (c # cs) of
           None \<Rightarrow> uri_scan (Suc pos) skip (Some c) cs
         | Some n \<Rightarrow> (pos, pos + n) # uri_scan (Suc pos) (pos + n) (Some c) cs))"

definition uri_regex_def :: "string \<Rightarrow> (nat \<times> nat) list" where
  "uri_regex_def s = uri_scan 0 0 None s"

text \<open>
  \<open>re.sub(r"\b%s\b" % word, fixword, line)\<close> for a word of the default word pattern,
  whose characters all stand for themselves in a pattern, and a replacement without a
  backslash, which is inserted as it is: every occurrence of the word between two word
  boundaries is replaced, from the left, the occurrences not overlapping. Other words
  and replacements are outside this model of the substitution.
\<close>

definition matches_word_at :: "string \<Rightarrow> char option \<Rightarrow> string \<Rightarrow> bool" where
  "matches_word_at word prev rest =
     (take (length word) rest = word \<and>
      boundary prev (Some (hd word)) \<and>
      boundary (Some (last word))
        (case drop (length word) rest of [] \<Rightarrow> None | d # _ \<Rightarrow> Some d))"

fun sub_word_scan :: "string \<Rightarrow> string \<Rightarrow> char option \<Rightarrow> nat \<Rightarrow> string \<Rightarrow> string" where
  "sub_word_scan word repl prev skip [] = []"
| "sub_word_scan word repl prev skip (c # cs) =
     (if 0 < skip then sub_word_scan word repl (Some c) (skip - 1) cs
      else if matches_word_at word prev (c # cs) then
        repl @ sub_word_scan word repl (Some c) (length word - 1) cs
      else c # sub_word_scan word repl (Some c) 0 cs)"

definition sub_whole_word :: "string \<Rightarrow> string \<Rightarrow> string \<Rightarrow> error + string" where
  "sub_whole_word word repl line =
     (if word = [] \<or> \<not> list_all word_regex_char word \<or> CHR 0x5C \<in> set repl then Inl NotModelled
      else Inr (sub_word_scan word repl None 0 line))"

text \<open>The default patterns, with an optional ignore pattern given by its spans. Both
  default patterns return their whole matches from \<open>findall\<close>.\<close>

definition default_env :: "(string \<Rightarrow> (nat \<times> nat) list) option \<Rightarrow> regex_env" where
  "default_env ignore_regex =
     \<lparr>word_finditer = word_regex_def,
      word_findall = (\<lambda>s. map (\<lambda>span. slice s (fst span) (snd span)) (word_regex_def s)),
      ignore_finditer = ignore_regex,
      uri_finditer = uri_regex_def,
      uri_findall = (\<lambda>s. map (\<lambda>span. slice s (fst span) (snd span)) (uri_regex_def s)),
      word_sub = sub_whole_word\<rparr>"

section \<open>The line scanner\<close>

text \<open>The options that \<open>parse_file\<close> reads, and the quiet levels it tests.\<close>

record options =
  check_filenames :: bool
  quiet_level :: int
  interactive :: int
  write_changes :: bool

definition BINARY_FILE :: int where "BINARY_FILE = 2"
definition DISABLED_FIXES :: int where "DISABLED_FIXES = 4"
definition NON_AUTOMATIC_FIXES :: int where "NON_AUTOMATIC_FIXES = 8"
definition FIXES :: int where "FIXES = 16"

text \<open>Class \<open>Summary\<close>: the number of times each word was counted.\<close>

type_synonym summary = "string \<rightharpoonup> nat"

definition summary_update :: "string \<Rightarrow> summary \<Rightarrow> summary" where
  "summary_update wrongword s =
     (case s wrongword of Some n \<Rightarrow> s(wrongword \<mapsto> n + 1) | None \<Rightarrow> s(wrongword \<mapsto> 1))"

text \<open>
  What the file system answers for a file name: no entry or \<open>NotRegular\<close> when
  \<open>os.path.isfile\<close> is false; \<open>PermissionDenied\<close> and \<open>ReadFails\<close> when
  \<open>is_text_file\<close> raises \<open>PermissionError\<close> or another \<open>OSError\<close>;
  \<open>BinaryFile\<close> when it finds a zero byte; \<open>OpenFails\<close> and \<open>Undecodable\<close> when
  \<open>file_opener.open\<close> raises \<open>OSError\<close> or \<open>UnicodeDecodeError\<close>; otherwise the
  encoding and the decoded lines. Writing a file stores its encoding and lines.
\<close>

datatype file_node =
    NotRegular
  | PermissionDenied
  | ReadFails
  | BinaryFile
  | OpenFails
  | Undecodable
  | TextFile string "string list"

type_synonym disk = "string \<rightharpoonup> file_node"

text \<open>
  One record of the log of findings, which the model keeps beside the state of the code
  to state properties of a run: the word of every match found in the dictionary, the
  decision \<open>fix\<close> and the reason of its entry when the match was handled, the index of
  its line (none for a word of the file name), and whether the word was already among
  the words fixed on that line. No branch of the scanner reads the log.
\<close>

record finding =
  f_word :: string
  f_fix :: bool
  f_reason :: string
  f_line :: "nat option"
  f_fixed_before :: bool

text \<open>
  The variables of \<open>parse_file\<close>, the objects it mutates (the dictionary, the summary,
  standard input, the file system) and the events printed by the resolver. What
  \<open>parse_file\<close> itself prints (reports, context lines, warnings) is not modelled.
\<close>

record pstate =
  st_bad_count :: nat
  st_lines :: "string list"
  st_changed :: bool
  st_fixed_words :: "string set"
  st_asked_for :: "string set"
  st_misspellings :: misspellings
  st_summary :: "summary option"
  st_stdin :: "string list"
  st_disk :: disk
  st_out :: "event list"
  st_findings :: "finding list"

text \<open>The two quiet-level tests on the reason of an entry, before a finding is counted.\<close>

definition quiet_skip :: "options \<Rightarrow> string \<Rightarrow> bool" where
  "quiet_skip opts reason =
     (if reason \<noteq> [] then quiet_level opts AND DISABLED_FIXES \<noteq> 0
      else quiet_level opts AND NON_AUTOMATIC_FIXES \<noteq> 0)"

text \<open>The body of the loop over the words of the file name.\<close>

definition filename_word :: "options \<Rightarrow> string \<Rightarrow> pstate \<Rightarrow> pstate" where
  "filename_word opts word st =
     (let lword = lower word
      in case st_misspellings st lword of
           None \<Rightarrow> st
         | Some misspelling \<Rightarrow>
             (let fix = ms_fix misspelling;
                  st = st\<lparr>st_summary :=
                            (if fix then map_option (summary_update lword) (st_summary st)
                             else st_summary st),
                          st_findings := st_findings st @
                            [\<lparr>f_word = word, f_fix = fix, f_reason = ms_reason misspelling,
                              f_line = None, f_fixed_before = False\<rparr>]\<rparr>
              in if quiet_skip opts (ms_reason misspelling) then st
                 else st\<lparr>st_bad_count := st_bad_count st + 1\<rparr>))"

text \<open>
  The decision for a match whose lowercased word has the entry \<open>misspelling\<close>: the
  stored \<open>fix\<close> and the case-adjusted correction, or the answer of the resolver when
  the run is interactive and the word was not asked for on this line yet.
\<close>

definition resolve :: "options \<Rightarrow> rmatch \<Rightarrow> misspelling \<Rightarrow> pstate \<Rightarrow> ask_result" where
  "resolve opts match misspelling st =
     (if interactive opts \<noteq> 0 \<and> lower (m_group match) \<notin> st_asked_for st
      then ask_for_word_fix match misspelling (interactive opts) (st_stdin st)
      else ask_return (m_group match) misspelling (st_stdin st) [])"

text \<open>The body of the loop over the matches of line \<open>i\<close>.\<close>

definition process_match :: "regex_env \<Rightarrow> options \<Rightarrow> nat \<Rightarrow> rmatch \<Rightarrow> pstate \<Rightarrow> error + pstate" where
  "process_match env opts i match st =
     (let word = m_group match; lword = lower word
      in case st_misspellings st lword of
           None \<Rightarrow> Inr st
         | Some misspelling \<Rightarrow>
             (let ar = resolve opts match misspelling st;
                  fix = ar_fix ar;
                  fixword = ar_fixword ar;
                  st = st\<lparr>st_misspellings := (st_misspellings st)(lword \<mapsto> ar_misspelling ar),
                          st_stdin := ar_stdin ar,
                          st_out := st_out st @ ar_out ar,
                          st_asked_for :=
                            (if interactive opts \<noteq> 0 \<and> lword \<notin> st_asked_for st
                             then insert lword (st_asked_for st) else st_asked_for st),
                          st_summary :=
                            (if fix then map_option (summary_update lword) (st_summary st)
                             else st_summary st),
                          st_findings := st_findings st @
                            [\<lparr>f_word = word, f_fix = fix,
                              f_reason = ms_reason (ar_misspelling ar),
                              f_line = Some i, f_fixed_before = (word \<in> st_fixed_words st)\<rparr>]\<rparr>
              in if word \<in> st_fixed_words st then Inr st
                 else if write_changes opts \<and> fix then
                   (case word_sub env word fixword (st_lines st ! i) of
                      Inl e \<Rightarrow> Inl e
                    | Inr new_line \<Rightarrow>
                        Inr (st\<lparr>st_changed := True,
                                st_lines := (st_lines st)[i := new_line],
                                st_fixed_words := insert word (st_fixed_words st)\<rparr>))
                 else if interactive opts AND 2 \<noteq> 0 \<and> \<not> fix \<and>
                         ms_reason (ar_misspelling ar) = [] then Inr st
                 else if quiet_skip opts (ms_reason (ar_misspelling ar)) then Inr st
                 else Inr (st\<lparr>st_bad_count := st_bad_count st + 1\<rparr>)))"

fun process_matches :: "regex_env \<Rightarrow> options \<Rightarrow> nat \<Rightarrow> rmatch list \<Rightarrow> pstate \<Rightarrow> error + pstate" where
  "process_matches env opts i [] st = Inr st"
| "process_matches env opts i (match # rest) st =
     (case process_match env opts i match st of
        Inl e \<Rightarrow> Inl e
      | Inr st' \<Rightarrow> process_matches env opts i rest st')"

text \<open>The body of the loop over the lines, and the loop from line \<open>i\<close> on.\<close>

definition parse_line ::
  "regex_env \<Rightarrow> options \<Rightarrow> string set \<Rightarrow> string set \<Rightarrow> nat \<Rightarrow> string \<Rightarrow> pstate \<Rightarrow> error + pstate" where
  "parse_line env opts exclude_lines uri_ignore_words i line st =
     (if line \<in> exclude_lines then Inr st
      else process_matches env opts i (line_matches env uri_ignore_words line)
             (st\<lparr>st_fixed_words := {}, st_asked_for := {}\<rparr>))"

fun parse_lines ::
  "regex_env \<Rightarrow> options \<Rightarrow> string set \<Rightarrow> string set \<Rightarrow> nat \<Rightarrow> string list \<Rightarrow> pstate \<Rightarrow> error + pstate" where
  "parse_lines env opts exclude_lines uri_ignore_words i [] st = Inr st"
| "parse_lines env opts exclude_lines uri_ignore_words i (line # rest) st =
     (case parse_line env opts exclude_lines uri_ignore_words i line st of
        Inl e \<Rightarrow> Inl e
      | Inr st' \<Rightarrow> parse_lines env opts exclude_lines uri_ignore_words (Suc i) rest st')"

text \<open>The end of \<open>parse_file\<close>: a changed file is written back with the encoding it
  was read with; the changed lines of standard input are only printed.\<close>

definition write_back :: "string \<Rightarrow> string \<Rightarrow> pstate \<Rightarrow> pstate" where
  "write_back filename encoding st =
     (if st_changed st \<and> filename \<noteq> ''-''
      then st\<lparr>st_disk := (st_disk st)(filename \<mapsto> TextFile encoding (st_lines st))\<rparr>
      else st)"

definition scan_lines ::
  "regex_env \<Rightarrow> options \<Rightarrow> string set \<Rightarrow> string set \<Rightarrow> string \<Rightarrow> string \<Rightarrow> string list \<Rightarrow>
   pstate \<Rightarrow> error + pstate" where
  "scan_lines env opts exclude_lines uri_ignore_words filename encoding lines st =
     (case parse_lines env opts exclude_lines uri_ignore_words 0 lines (st\<lparr>st_lines := lines\<rparr>) of
        Inl e \<Rightarrow> Inl e
      | Inr st' \<Rightarrow> Inr (write_back filename encoding st'))"

text \<open>
  \<open>parse_file\<close>. The returned number is \<open>st_bad_count\<close> of the final state. For the
  pseudo-file \<open>-\<close> the lines are all of standard input, which leaves nothing for the
  resolver to read.
\<close>

definition parse_file ::
  "regex_env \<Rightarrow> string \<Rightarrow> summary option \<Rightarrow> misspellings \<Rightarrow> string set \<Rightarrow> string set \<Rightarrow>
   options \<Rightarrow> disk \<Rightarrow> string list \<Rightarrow> error + pstate" where
  "parse_file env filename summary misspellings exclude_lines uri_ignore_words opts disk stdin =
     (let st = \<lparr>st_bad_count = 0, st_lines = [], st_changed = False, st_fixed_words = {},
                st_asked_for = {}, st_misspellings = misspellings, st_summary = summary,
                st_stdin = stdin, st_disk = disk, st_out = [], st_findings = []\<rparr>
      in if filename = ''-'' then
           scan_lines env opts exclude_lines uri_ignore_words filename ''utf-8'' stdin
             (st\<lparr>st_stdin := []\<rparr>)
         else
           (let st = (if check_filenames opts
                      then fold (filename_word opts) (extract_words env filename) st else st)
            in case disk filename of
                 None \<Rightarrow> Inr st
               | Some NotRegular \<Rightarrow> Inr st
               | Some PermissionDenied \<Rightarrow> Inr st
               | Some ReadFails \<Rightarrow> Inr st
               | Some BinaryFile \<Rightarrow> Inr st
               | Some OpenFails \<Rightarrow> Inr st
               | Some Undecodable \<Rightarrow> Inl UnicodeDecodeError
               | Some (TextFile encoding lines) \<Rightarrow>
                   scan_lines env opts exclude_lines uri_ignore_words filename encoding lines st))"

section \<open>A sample run\<close>

text \<open>
  A dictionary of three lines (an automatic fix, a choice of two candidates, a disabled
  fix with its reason), loaded by \<open>build_dict\<close>, and a scan of one file with the
  default patterns.
\<close>

definition demo_dictionary :: "string list" where
  "demo_dictionary =
     [''teh->the\<newline>'', ''foo->bar, baz,\<newline>'', ''clas->class, disabled because of name clash in c++\<newline>'']"

definition demo_misspellings :: misspellings where
  "demo_misspellings = fst (build_dict demo_dictionary Map.empty {})"

definition demo_options :: "int \<Rightarrow> bool \<Rightarrow> options" where
  "demo_options i w = \<lparr>check_filenames = False, quiet_level = 2, interactive = i, write_changes = w\<rparr>"

definition demo_run :: "string set \<Rightarrow> options \<Rightarrow> string list \<Rightarrow> string list \<Rightarrow> error + pstate" where
  "demo_run uri_ignore_words opts lines stdin =
     parse_file (default_env None) ''notes.txt'' None demo_misspellings {} uri_ignore_words opts
       [''notes.txt'' \<mapsto> TextFile ''utf-8'' lines] stdin"

definition demo_state :: "string list \<Rightarrow> pstate" where
  "demo_state lines =
     \<lparr>st_bad_count = 0, st_lines = lines, st_changed = False, st_fixed_words = {},
      st_asked_for = {}, st_misspellings = demo_misspellings, st_summary = None,
      st_stdin = [], st_disk = [''notes.txt'' \<mapsto> TextFile ''utf-8'' lines], st_out = [],
      st_findings = []\<rparr>"

section \<open>Specification-side notions\<close>

text \<open>The invariant of a dictionary entry: a reason disables the automatic fix.\<close>

definition entry_ok :: "misspelling \<Rightarrow> bool" where
  "entry_ok e = (ms_reason e \<noteq> [] \<longrightarrow> \<not> ms_fix e)"

definition dict_ok :: "misspellings \<Rightarrow> bool" where
  "dict_ok m = (\<forall>k e. m k = Some e \<longrightarrow> entry_ok e)"


text \<open>The number of non-overlapping occurrences of \<open>->\<close> in a line, counted from the left.\<close>

fun count_arrow :: "string \<Rightarrow> nat" where
  "count_arrow [] = 0"
| "count_arrow [c] = 0"
| "count_arrow (a # b # cs) =
     (if a = CHR ''-'' \<and> b = CHR ''>'' then Suc (count_arrow cs) else count_arrow (b # cs))"

text \<open>
  The three suppression rules on a finding: the quiet bit for disabled fixes when the
  entry has a reason, the quiet bit for non-automatic fixes when it has none, and the
  rule of the interactive choose mode for a finding left unfixed without a reason.
\<close>

definition suppressed :: "options \<Rightarrow> finding \<Rightarrow> bool" where
  "suppressed opts f =
     (quiet_skip opts (f_reason f) \<or>
      (interactive opts AND 2 \<noteq> 0 \<and> \<not> f_fix f \<and> f_reason f = []))"

text \<open>
  The findings that the code counts: in the file name, those that the quiet bits do not
  suppress; on a line, those that are not suppressed, that write mode does not fix and
  whose word was not fixed on the line before.
\<close>

definition counted :: "options \<Rightarrow> finding \<Rightarrow> bool" where
  "counted opts f =
     (if f_line f = None then \<not> quiet_skip opts (f_reason f)
      else \<not> f_fixed_before f \<and> \<not> (write_changes opts \<and> f_fix f) \<and> \<not> suppressed opts f)"

text \<open>
  A list of spans in order on a text of \<open>n\<close> characters: each span is not empty,
  starts at or after \<open>pos\<close> and the end of the span before it, and ends within the
  text. The matches that \<open>finditer\<close> returns for a pattern that matches no empty
  string are such a list.
\<close>

fun spans_ok :: "nat \<Rightarrow> (nat \<times> nat) list \<Rightarrow> nat \<Rightarrow> bool" where
  "spans_ok pos [] n = (pos \<le> n)"
| "spans_ok pos (span # spans) n =
     (pos \<le> fst span \<and> fst span < snd span \<and> spans_ok (snd span) spans n)"

text \<open>
  A text rewritten at some spans, told position by position of the text: where a span
  starts the replacement stands, a position outside every span keeps its character, and
  nothing else is left of a span.
\<close>

definition starts_span :: "(nat \<times> nat) list \<Rightarrow> nat \<Rightarrow> bool" where
  "starts_span spans k = list_ex (\<lambda>span. fst span = k) spans"

definition outside_spans :: "(nat \<times> nat) list \<Rightarrow> nat \<Rightarrow> bool" where
  "outside_spans spans k = list_all (\<lambda>span. \<not> (fst span \<le> k \<and> k < snd span)) spans"

definition rewritten_at :: "string \<Rightarrow> (nat \<times> nat) list \<Rightarrow> string \<Rightarrow> nat \<Rightarrow> string" where
  "rewritten_at repl spans line k =
     (if starts_span spans k then repl else []) @
     (if outside_spans spans k then [line ! k] else [])"

definition rewritten :: "string \<Rightarrow> (nat \<times> nat) list \<Rightarrow> string \<Rightarrow> string" where
  "rewritten repl spans line = concat (map (rewritten_at repl spans line) [0..<length line])"

text \<open>The same text from position \<open>pos\<close> on, span after span.\<close>

fun replace_from :: "string \<Rightarrow> nat \<Rightarrow> (nat \<times> nat) list \<Rightarrow> string \<Rightarrow> string" where
  "replace_from repl pos [] s = drop pos s"
| "replace_from repl pos (span # spans) s =
     slice s pos (fst span) @ repl @ replace_from repl (snd span) spans s"

text \<open>
  A whole-word occurrence of a word at position \<open>p\<close> of a line: the word stands
  there, with a word boundary before its first and after its last character.
\<close>

definition whole_word_at :: "string \<Rightarrow> string \<Rightarrow> nat \<Rightarrow> bool" where
  "whole_word_at word line p =
     (p + length word \<le> length line \<and> slice line p (p + length word) = word \<and>
      (0 < p \<and> is_word_char (line ! (p - 1))) \<noteq> is_word_char (line ! p) \<and>
      is_word_char (line ! (p + length word - 1)) \<noteq>
        (p + length word < length line \<and> is_word_char (line ! (p + length word))))"

definition word_spans :: "string \<Rightarrow> nat list \<Rightarrow> (nat \<times> nat) list" where
  "word_spans word ps = map (\<lambda>p. (p, p + length word)) ps"

text \<open>
  The positions \<open>ps\<close> are the whole-word occurrences of the word on the line, from the
  left: they are in order and do not overlap, each is a whole-word occurrence, and every
  whole-word occurrence of the line is one of them or begins inside one of them.
\<close>

definition all_occurrences :: "string \<Rightarrow> string \<Rightarrow> nat list \<Rightarrow> bool" where
  "all_occurrences word line ps =
     (spans_ok 0 (word_spans word ps) (length line) \<and>
      (\<forall>p\<in>set ps. whole_word_at word line p) \<and>
      (\<forall>q. whole_word_at word line q \<longrightarrow> (\<exists>p\<in>set ps. p \<le> q \<and> q < p + length word)))"

section \<open>Splitting and searching strings\<close>

lemma split_arrow_nonempty: "split_arrow s \<noteq> []"
  by (induction s rule: split_arrow.induct) (auto split: list.splits)

lemma length_split_arrow: "length (split_arrow s) = Suc (count_arrow s)"
  by (induction s rule: split_arrow.induct) (auto split: list.splits simp: split_arrow_nonempty)

lemma join_split_arrow: "join ''->'' (split_arrow s) = s"
proof (induction s rule: split_arrow.induct)
  case (3 a b cs)
  show ?case
  proof (cases "a = CHR ''-'' \<and> b = CHR ''>''")
    case True
    with 3 show ?thesis by (cases "split_arrow cs") (auto simp: split_arrow_nonempty)
  next
    case False
    obtain p ps where ps: "split_arrow (b # cs) = p # ps"
      using split_arrow_nonempty[of "b # cs"] by (cases "split_arrow (b # cs)") auto
    with 3 False show ?thesis by (cases ps) auto
  qed
qed auto

lemma split_arrow_two: "split_arrow line = [k, d] \<Longrightarrow> line = k @ ''->'' @ d"
  using join_split_arrow[of line] by simp

lemma rfind_comma_neg: "(rfind_comma s < 0) = (CHR '','' \<notin> set s)"
  by (induction s) (auto simp: Let_def)

lemma rfind_comma_last:
  "CHR '','' \<notin> set post \<Longrightarrow> rfind_comma (pre @ CHR '','' # post) = int (length pre)"
proof (induction pre)
  case Nil
  then show ?case using rfind_comma_neg[of post] by (simp add: Let_def)
next
  case (Cons a pre)
  then show ?case by (simp add: Let_def)
qed

lemma last_comma_cases:
  obtains (none) "CHR '','' \<notin> set data"
    | (some) pre post where "data = pre @ CHR '','' # post" "CHR '','' \<notin> set post"
proof (cases "CHR '','' \<in> set data")
  case True
  then obtain ys zs where r: "data = ys @ CHR '','' # zs" "CHR '','' \<notin> set zs"
    by (meson split_list_last)
  then show ?thesis using that(2) by blast
next
  case False then show ?thesis using that(1) by blast
qed

lemma last_comma_unique:
  assumes "pre @ CHR '','' # post = pre' @ CHR '','' # post'"
    "CHR '','' \<notin> set post" "CHR '','' \<notin> set post'"
  shows "pre' = pre \<and> post' = post"
proof -
  have "int (length pre') = int (length pre)"
    using rfind_comma_last[OF assms(2), of pre] rfind_comma_last[OF assms(3), of pre'] assms(1)
    by simp
  then show ?thesis using assms(1) by auto
qed

lemma upper_char_comma: "(upper_char c = CHR '','') = (c = CHR '','')"
  by (auto simp: upper_char_def ascii_lowercase_def ascii_uppercase_def
      split: option.splits if_splits)

lemma split_comma_nonempty: "split_comma s \<noteq> []"
  by (induction s) (auto split: list.splits)

lemma split_comma_upper: "split_comma (upper s) = map upper (split_comma s)"
  unfolding upper_def
  by (induction s) (auto simp: upper_char_comma split_comma_nonempty split: list.splits)

section \<open>The dictionary builder\<close>

lemma build_dict_line_none:
  assumes "split_arrow line = [wrong, rest]" "lower wrong \<notin> ignore_words"
    "CHR '','' \<notin> set (strip (lower rest))"
  shows "build_dict_line line m ignore_words =
    Inr (m(lower wrong \<mapsto> \<lparr>ms_data = strip (lower rest), ms_fix = True, ms_reason = []\<rparr>))"
  using assms by (simp add: build_dict_line_def Let_def rfind_comma_neg)

lemma build_dict_line_trailing:
  assumes "split_arrow line = [wrong, rest]" "lower wrong \<notin> ignore_words"
    "strip (lower rest) = pre @ '',''"
  shows "build_dict_line line m ignore_words =
    Inr (m(lower wrong \<mapsto> \<lparr>ms_data = pre, ms_fix = False, ms_reason = []\<rparr>))"
proof -
  have "rfind_comma (pre @ CHR '','' # []) = int (length pre)"
    by (rule rfind_comma_last) simp
  with assms show ?thesis by (simp add: build_dict_line_def Let_def)
qed

lemma build_dict_line_reason:
  assumes "split_arrow line = [wrong, rest]" "lower wrong \<notin> ignore_words"
    "strip (lower rest) = pre @ CHR '','' # post" "post \<noteq> []" "CHR '','' \<notin> set post"
  shows "build_dict_line line m ignore_words =
    Inr (m(lower wrong \<mapsto> \<lparr>ms_data = pre, ms_fix = False, ms_reason = strip post\<rparr>))"
proof -
  have "rfind_comma (pre @ CHR '','' # post) = int (length pre)"
    using assms(5) by (rule rfind_comma_last)
  moreover have "nat (int (length pre) + 1) = Suc (length pre)" by simp
  ultimately show ?thesis using assms by (simp add: build_dict_line_def Let_def)
qed

text \<open>
  C4. A dictionary line that splits into \<open>wrong\<close> and \<open>rest\<close>, with the lowercased
  \<open>wrong\<close> not an ignored word, stores one entry under the lowercased key. With
  \<open>data\<close> the lowercased and stripped \<open>rest\<close>: if \<open>data\<close> has no comma the entry has
  \<open>fix\<close> true, an empty reason and \<open>data\<close> as its correction; if \<open>data\<close> ends in a
  comma the entry has \<open>fix\<close> false, an empty reason and \<open>data\<close> without that comma;
  otherwise \<open>fix\<close> is false, the correction is \<open>data\<close> up to its last comma and the
  reason is the stripped text after it.
\<close>

theorem build_dict_line_entry:
  assumes sp: "split_arrow line = [wrong, rest]"
    and ign: "lower wrong \<notin> ignore_words"
  shows "\<exists>e. build_dict_line line m ignore_words = Inr (m(lower wrong \<mapsto> e)) \<and>
     (CHR '','' \<notin> set (strip (lower rest)) \<longrightarrow>
        ms_fix e \<and> ms_reason e = [] \<and> ms_data e = strip (lower rest)) \<and>
     (\<forall>pre. strip (lower rest) = pre @ '','' \<longrightarrow>
        \<not> ms_fix e \<and> ms_reason e = [] \<and> ms_data e = pre) \<and>
     (\<forall>pre post. strip (lower rest) = pre @ '','' @ post \<and> post \<noteq> [] \<and> CHR '','' \<notin> set post \<longrightarrow>
        \<not> ms_fix e \<and> ms_data e = pre \<and> ms_reason e = strip post)"
proof (cases "strip (lower rest)" rule: last_comma_cases)
  case none
  let ?e = "\<lparr>ms_data = strip (lower rest), ms_fix = True, ms_reason = []\<rparr>"
  have "build_dict_line line m ignore_words = Inr (m(lower wrong \<mapsto> ?e))"
    using sp ign none by (rule build_dict_line_none)
  moreover have "\<And>pre post. strip (lower rest) \<noteq> pre @ CHR '','' # post"
    using none by (metis in_set_conv_decomp)
  ultimately show ?thesis by (intro exI[of _ ?e]) simp
next
  case (some pre post)
  show ?thesis
  proof (cases "post = []")
    case True
    let ?e = "\<lparr>ms_data = pre, ms_fix = False, ms_reason = []\<rparr>"
    have "build_dict_line line m ignore_words = Inr (m(lower wrong \<mapsto> ?e))"
      using sp ign some(1) True by (intro build_dict_line_trailing) simp_all
    moreover have "CHR '','' \<in> set (strip (lower rest))" using some(1) by simp
    moreover have "pre' = pre" if "strip (lower rest) = pre' @ '',''" for pre'
      using that some(1) True by simp
    moreover have "\<not> (strip (lower rest) = pre' @ '','' @ post' \<and> post' \<noteq> [] \<and> CHR '','' \<notin> set post')"
      for pre' post'
      using last_comma_unique[of pre post pre' post'] some True by auto
    ultimately show ?thesis by (intro exI[of _ ?e]) auto
  next
    case False
    let ?e = "\<lparr>ms_data = pre, ms_fix = False, ms_reason = strip post\<rparr>"
    have "build_dict_line line m ignore_words = Inr (m(lower wrong \<mapsto> ?e))"
      using sp ign some(1) False some(2) by (rule build_dict_line_reason)
    moreover have "CHR '','' \<in> set (strip (lower rest))" using some(1) by simp
    moreover have "strip (lower rest) \<noteq> pre' @ '',''" for pre'
      using last_comma_unique[of pre post pre' "[]"] some False by auto
    moreover have "pre' = pre \<and> post' = post"
      if "strip (lower rest) = pre' @ '','' @ post'" "CHR '','' \<notin> set post'" for pre' post'
      using last_comma_unique[of pre post pre' post'] some that by auto
    ultimately show ?thesis by (intro exI[of _ ?e]) auto
  qed
qed

theorem build_dict_line_entry_witness:
  "(\<exists>e. build_dict_line ''teh->the\<newline>'' Map.empty {''uint''} = Inr [''teh'' \<mapsto> e] \<and>
        ms_fix e \<and> ms_reason e = [] \<and> ms_data e = ''the'') \<and>
   (\<exists>e. build_dict_line ''Abandonned->Abandoned, Forsaken,\<newline>'' Map.empty {''uint''} =
          Inr [''abandonned'' \<mapsto> e] \<and>
        \<not> ms_fix e \<and> ms_reason e = [] \<and> ms_data e = ''abandoned, forsaken'') \<and>
   (\<exists>e. build_dict_line ''clas->class, disabled because of name clash in c++\<newline>'' Map.empty {''uint''} =
          Inr [''clas'' \<mapsto> e] \<and>
        \<not> ms_fix e \<and> ms_data e = ''class'' \<and> ms_reason e = ''disabled because of name clash in c++'')"
proof (intro conjI)
  have s: "split_arrow ''teh->the\<newline>'' = [''teh'', ''the\<newline>'']" by code_simp
  have i: "lower ''teh'' \<notin> {''uint''}" by code_simp
  have k: "lower ''teh'' = ''teh''" by code_simp
  have d: "strip (lower ''the\<newline>'') = ''the''" by code_simp
  have n: "CHR '','' \<notin> set ''the''" by simp
  from build_dict_line_entry[OF s i, of Map.empty, unfolded k d]
  obtain e where e: "build_dict_line ''teh->the\<newline>'' Map.empty {''uint''} = Inr [''teh'' \<mapsto> e]"
    and c: "CHR '','' \<notin> set ''the'' \<longrightarrow> ms_fix e \<and> ms_reason e = [] \<and> ms_data e = ''the''"
    by (elim exE conjE)
  from c n have "ms_fix e \<and> ms_reason e = [] \<and> ms_data e = ''the''" by (rule mp)
  with e show "\<exists>e. build_dict_line ''teh->the\<newline>'' Map.empty {''uint''} = Inr [''teh'' \<mapsto> e] \<and>
        ms_fix e \<and> ms_reason e = [] \<and> ms_data e = ''the''"
    by (intro exI[of _ e] conjI) (elim conjE, assumption)+
next
  have s: "split_arrow ''Abandonned->Abandoned, Forsaken,\<newline>'' =
      [''Abandonned'', ''Abandoned, Forsaken,\<newline>'']" by code_simp
  have i: "lower ''Abandonned'' \<notin> {''uint''}" by code_simp
  have k: "lower ''Abandonned'' = ''abandonned''" by code_simp
  have d: "strip (lower ''Abandoned, Forsaken,\<newline>'') = ''abandoned, forsaken'' @ '',''" by code_simp
  from build_dict_line_entry[OF s i, of Map.empty, unfolded k]
  obtain e where e: "build_dict_line ''Abandonned->Abandoned, Forsaken,\<newline>'' Map.empty {''uint''} =
          Inr [''abandonned'' \<mapsto> e]"
    and c: "\<forall>pre. strip (lower ''Abandoned, Forsaken,\<newline>'') = pre @ '','' \<longrightarrow>
        \<not> ms_fix e \<and> ms_reason e = [] \<and> ms_data e = pre"
    by (elim exE conjE)
  from c have "strip (lower ''Abandoned, Forsaken,\<newline>'') = ''abandoned, forsaken'' @ '','' \<longrightarrow>
        \<not> ms_fix e \<and> ms_reason e = [] \<and> ms_data e = ''abandoned, forsaken''" by (rule spec)
  from this d have "\<not> ms_fix e \<and> ms_reason e = [] \<and> ms_data e = ''abandoned, forsaken''" by (rule mp)
  with e show "\<exists>e. build_dict_line ''Abandonned->Abandoned, Forsaken,\<newline>'' Map.empty {''uint''} =
          Inr [''abandonned'' \<mapsto> e] \<and>
        \<not> ms_fix e \<and> ms_reason e = [] \<and> ms_data e = ''abandoned, forsaken''"
    by (intro exI[of _ e] conjI) (elim conjE, assumption)+
next
  have s: "split_arrow ''clas->class, disabled because of name clash in c++\<newline>'' =
      [''clas'', ''class, disabled because of name clash in c++\<newline>'']" by code_simp
  have i: "lower ''clas'' \<notin> {''uint''}" by code_simp
  have k: "lower ''clas'' = ''clas''" by code_simp
  have d: "strip (lower ''class, disabled because of name clash in c++\<newline>'') =
     ''class'' @ '','' @ '' disabled because of name clash in c++''" by code_simp
  have p1: "'' disabled because of name clash in c++'' \<noteq> []" by simp
  have p2: "CHR '','' \<notin> set '' disabled because of name clash in c++''" by simp
  have r: "strip '' disabled because of name clash in c++'' = ''disabled because of name clash in c++''"
    by code_simp
  from build_dict_line_entry[OF s i, of Map.empty, unfolded k]
  obtain e where e: "build_dict_line ''clas->class, disabled because of name clash in c++\<newline>'' Map.empty {''uint''} =
          Inr [''clas'' \<mapsto> e]"
    and c: "\<forall>pre post. strip (lower ''class, disabled because of name clash in c++\<newline>'') = pre @ '','' @ post
        \<and> post \<noteq> [] \<and> CHR '','' \<notin> set post \<longrightarrow>
        \<not> ms_fix e \<and> ms_data e = pre \<and> ms_reason e = strip post"
    by (elim exE conjE)
  from c have "strip (lower ''class, disabled because of name clash in c++\<newline>'') =
        ''class'' @ '','' @ '' disabled because of name clash in c++''
        \<and> '' disabled because of name clash in c++'' \<noteq> []
        \<and> CHR '','' \<notin> set '' disabled because of name clash in c++'' \<longrightarrow>
        \<not> ms_fix e \<and> ms_data e = ''class'' \<and>
        ms_reason e = strip '' disabled because of name clash in c++''"
    by (elim allE)
  moreover from d p1 p2 have "strip (lower ''class, disabled because of name clash in c++\<newline>'') =
        ''class'' @ '','' @ '' disabled because of name clash in c++''
        \<and> '' disabled because of name clash in c++'' \<noteq> []
        \<and> CHR '','' \<notin> set '' disabled because of name clash in c++''" by (intro conjI)
  ultimately have "\<not> ms_fix e \<and> ms_data e = ''class'' \<and>
        ms_reason e = strip '' disabled because of name clash in c++''" by (rule mp)
  then have "\<not> ms_fix e \<and> ms_data e = ''class'' \<and>
        ms_reason e = ''disabled because of name clash in c++''" unfolding r .
  with e show "\<exists>e. build_dict_line ''clas->class, disabled because of name clash in c++\<newline>'' Map.empty {''uint''} =
          Inr [''clas'' \<mapsto> e] \<and>
        \<not> ms_fix e \<and> ms_data e = ''class'' \<and> ms_reason e = ''disabled because of name clash in c++''"
    by (intro exI[of _ e] conjI) (elim conjE, assumption)+
qed

lemma build_dict_line_one_arrow:
  assumes "count_arrow line = 1"
  shows "\<exists>key data. line = key @ ''->'' @ data \<and> split_arrow line = [key, data]"
    and "\<exists>m'. build_dict_line line m ignore_words = Inr m'"
proof -
  from assms have "length (split_arrow line) = 2" by (simp add: length_split_arrow)
  then obtain k d where kd: "split_arrow line = [k, d]"
    by (cases "split_arrow line"; cases "tl (split_arrow line)") auto
  then show "\<exists>key data. line = key @ ''->'' @ data \<and> split_arrow line = [key, data]"
    using split_arrow_two by blast
  show "\<exists>m'. build_dict_line line m ignore_words = Inr m'"
    using kd by (simp add: build_dict_line_def Let_def)
qed

lemma build_dict_line_other:
  assumes "count_arrow line \<noteq> 1"
  shows "build_dict_line line m ignore_words = Inl ValueError"
proof -
  from assms have "length (split_arrow line) \<noteq> 2" by (simp add: length_split_arrow)
  then show ?thesis by (auto simp: build_dict_line_def split: list.splits)
qed

lemma build_dict_loads_iff:
  "(snd (build_dict lines m ignore_words) = None) = (\<forall>line\<in>set lines. count_arrow line = 1)"
proof (induction lines arbitrary: m)
  case Nil
  then show ?case by simp
next
  case (Cons line lines)
  show ?case
  proof (cases "count_arrow line = 1")
    case True
    then obtain m' where "build_dict_line line m ignore_words = Inr m'"
      using build_dict_line_one_arrow(2) by blast
    with True Cons.IH[of m'] show ?thesis by simp
  next
    case False
    then have "build_dict_line line m ignore_words = Inl ValueError"
      by (rule build_dict_line_other)
    with False show ?thesis by simp
  qed
qed

text \<open>
  C5, as the code has it. A line is loaded exactly when it holds one occurrence of
  \<open>->\<close>: it is then the key, the separator and the data, and the load of the line
  returns a dictionary. Every other line, with no separator or with more than one,
  raises \<open>ValueError\<close>; and the load of a file raises nothing exactly when each of
  its lines holds one occurrence.
\<close>

theorem build_dict_line_fails_unless_one_arrow:
  "(count_arrow line = 1 \<longrightarrow>
      (\<exists>key data. line = key @ ''->'' @ data \<and> split_arrow line = [key, data]) \<and>
      (\<exists>m'. build_dict_line line m ignore_words = Inr m')) \<and>
   (count_arrow line \<noteq> 1 \<longrightarrow> build_dict_line line m ignore_words = Inl ValueError) \<and>
   (snd (build_dict lines m ignore_words) = None) = (\<forall>l\<in>set lines. count_arrow l = 1)"
proof (intro conjI impI)
  assume "count_arrow line = 1"
  then show "\<exists>key data. line = key @ ''->'' @ data \<and> split_arrow line = [key, data]"
    and "\<exists>m'. build_dict_line line m ignore_words = Inr m'"
    by (rule build_dict_line_one_arrow)+
next
  assume "count_arrow line \<noteq> 1"
  then show "build_dict_line line m ignore_words = Inl ValueError"
    by (rule build_dict_line_other)
next
  show "(snd (build_dict lines m ignore_words) = None) = (\<forall>l\<in>set lines. count_arrow l = 1)"
    by (rule build_dict_loads_iff)
qed

theorem build_dict_line_fails_unless_one_arrow_witness:
  "count_arrow ''teh->the\<newline>'' = 1 \<and>
   (\<exists>m'. build_dict_line ''teh->the\<newline>'' Map.empty {} = Inr m') \<and>
   count_arrow ''teh the\<newline>'' \<noteq> 1 \<and>
   build_dict_line ''teh the\<newline>'' Map.empty {} = Inl ValueError \<and>
   list_all (\<lambda>l. count_arrow l = 1) demo_dictionary \<and>
   snd (build_dict demo_dictionary Map.empty {}) = None"
proof -
  note t1 = build_dict_line_fails_unless_one_arrow[where line = "''teh->the\<newline>''"
      and m = Map.empty and ignore_words = "{}" and lines = demo_dictionary]
  note t2 = build_dict_line_fails_unless_one_arrow[where line = "''teh the\<newline>''"
      and m = Map.empty and ignore_words = "{}" and lines = demo_dictionary]
  have a: "count_arrow ''teh->the\<newline>'' = 1" by code_simp
  have b: "count_arrow ''teh the\<newline>'' \<noteq> 1" by code_simp
  have "count_arrow ''teh->the\<newline>'' = 1 \<longrightarrow>
      (\<exists>key data. ''teh->the\<newline>'' = key @ ''->'' @ data \<and> split_arrow ''teh->the\<newline>'' = [key, data]) \<and>
      (\<exists>m'. build_dict_line ''teh->the\<newline>'' Map.empty {} = Inr m')"
    using t1 by (rule conjunct1)
  from this a have "(\<exists>key data. ''teh->the\<newline>'' = key @ ''->'' @ data \<and> split_arrow ''teh->the\<newline>'' = [key, data]) \<and>
      (\<exists>m'. build_dict_line ''teh->the\<newline>'' Map.empty {} = Inr m')" by (rule mp)
  then have c: "\<exists>m'. build_dict_line ''teh->the\<newline>'' Map.empty {} = Inr m'" by (rule conjunct2)
  have "count_arrow ''teh the\<newline>'' \<noteq> 1 \<longrightarrow> build_dict_line ''teh the\<newline>'' Map.empty {} = Inl ValueError"
    using t2 by (rule conjunct1[OF conjunct2])
  from this b have d: "build_dict_line ''teh the\<newline>'' Map.empty {} = Inl ValueError" by (rule mp)
  have e0: "list_all (\<lambda>l. count_arrow l = 1) demo_dictionary" by code_simp
  then have e: "\<forall>l\<in>set demo_dictionary. count_arrow l = 1" by (simp add: list_all_iff)
  have "(snd (build_dict demo_dictionary Map.empty {}) = None) = (\<forall>l\<in>set demo_dictionary. count_arrow l = 1)"
    using t1 by (rule conjunct2[OF conjunct2])
  from this e have f: "snd (build_dict demo_dictionary Map.empty {}) = None" by (rule iffD2)
  from a c b d e0 f show ?thesis by (intro conjI)
qed

text \<open>
  C5, as stated, fails: a line that does hold the separator, twice, is not split at the
  first occurrence but refused.
\<close>

theorem build_dict_line_two_arrows_counterexample:
  "''a->b->c\<newline>'' = ''a'' @ ''->'' @ ''b->c\<newline>'' \<and>
   build_dict_line ''a->b->c\<newline>'' Map.empty {} = Inl ValueError"
  by (simp add: build_dict_line_def)

section \<open>Case-shape preservation\<close>

text \<open>
  C10. \<open>fix_case\<close> tests the capitalized shape first: whenever the word is its own
  capitalization, also when it is its own uppercase form as well, the result is the
  candidates, each stripped and capitalized, joined with a comma and a blank. Only a word
  that is not its own capitalization reaches the uppercase test, whose result is the
  uppercased correction with the pieces between its commas uppercased in place, and the
  remaining words get the stored correction back unchanged.
\<close>

theorem fix_case_branches:
  "(word = capitalize word \<longrightarrow>
      fix_case word fixword = join '', '' (map (\<lambda>w. capitalize (strip w)) (split_comma fixword))) \<and>
   (word \<noteq> capitalize word \<and> word = upper word \<longrightarrow>
      fix_case word fixword = upper fixword \<and>
      split_comma (fix_case word fixword) = map upper (split_comma fixword)) \<and>
   (word \<noteq> capitalize word \<and> word \<noteq> upper word \<longrightarrow> fix_case word fixword = fixword)"
  by (simp add: fix_case_def split_comma_upper)

theorem fix_case_branches_witness:
  "(''A'' = capitalize ''A'' \<and> ''A'' = upper ''A'' \<and>
    fix_case ''A'' ''b ,c'' = ''B, C'' \<and> ''B, C'' \<noteq> upper ''b ,c'') \<and>
   (''TEH'' \<noteq> capitalize ''TEH'' \<and> ''TEH'' = upper ''TEH'' \<and> fix_case ''TEH'' ''the ,tea'' = ''THE ,TEA'') \<and>
   (''teh'' \<noteq> capitalize ''teh'' \<and> ''teh'' \<noteq> upper ''teh'' \<and> fix_case ''teh'' ''the ,tea'' = ''the ,tea'')"
proof -
  have a1: "''A'' = capitalize ''A''" by code_simp
  have a2: "''A'' = upper ''A''" by code_simp
  have a3: "join '', '' (map (\<lambda>w. capitalize (strip w)) (split_comma ''b ,c'')) = ''B, C''"
    by code_simp
  have a4: "''B, C'' \<noteq> upper ''b ,c''" by code_simp
  have "''A'' = capitalize ''A'' \<longrightarrow>
      fix_case ''A'' ''b ,c'' = join '', '' (map (\<lambda>w. capitalize (strip w)) (split_comma ''b ,c''))"
    using fix_case_branches[of "''A''" "''b ,c''"] by (rule conjunct1)
  from this a1 have "fix_case ''A'' ''b ,c'' = join '', '' (map (\<lambda>w. capitalize (strip w)) (split_comma ''b ,c''))"
    by (rule mp)
  then have a: "fix_case ''A'' ''b ,c'' = ''B, C''" unfolding a3 .
  have b1: "''TEH'' \<noteq> capitalize ''TEH''" by code_simp
  have b2: "''TEH'' = upper ''TEH''" by code_simp
  have b3: "upper ''the ,tea'' = ''THE ,TEA''" by code_simp
  have "''TEH'' \<noteq> capitalize ''TEH'' \<and> ''TEH'' = upper ''TEH'' \<longrightarrow>
      fix_case ''TEH'' ''the ,tea'' = upper ''the ,tea'' \<and>
      split_comma (fix_case ''TEH'' ''the ,tea'') = map upper (split_comma ''the ,tea'')"
    using fix_case_branches[of "''TEH''" "''the ,tea''"] by (elim conjE)
  with b1 b2 have "fix_case ''TEH'' ''the ,tea'' = upper ''the ,tea''" by (elim impE conjE) (rule conjI)
  then have b: "fix_case ''TEH'' ''the ,tea'' = ''THE ,TEA''" unfolding b3 .
  have c1: "''teh'' \<noteq> capitalize ''teh''" by code_simp
  have c2: "''teh'' \<noteq> upper ''teh''" by code_simp
  have "''teh'' \<noteq> capitalize ''teh'' \<and> ''teh'' \<noteq> upper ''teh'' \<longrightarrow>
      fix_case ''teh'' ''the ,tea'' = ''the ,tea''"
    using fix_case_branches[of "''teh''" "''the ,tea''"] by (elim conjE)
  with c1 c2 have c: "fix_case ''teh'' ''the ,tea'' = ''the ,tea''" by (elim impE) (rule conjI)
  from a1 a2 a a4 b1 b2 b c1 c2 c show ?thesis by (intro conjI)
qed

section \<open>The invariant of the dictionary\<close>

lemma build_dict_line_ok:
  assumes "dict_ok m" "build_dict_line line m ign = Inr m'"
  shows "dict_ok m'"
proof (cases "split_arrow line")
  case Nil
  with assms show ?thesis by (simp add: build_dict_line_def)
next
  case (Cons k r)
  show ?thesis
  proof (cases r)
    case Nil
    with Cons assms show ?thesis by (simp add: build_dict_line_def)
  next
    case (Cons d r')
    show ?thesis
    proof (cases r')
      case Nil
      with \<open>split_arrow line = k # r\<close> \<open>r = d # r'\<close> have sp: "split_arrow line = [k, d]" by simp
      show ?thesis
        using assms unfolding build_dict_line_def sp dict_ok_def entry_ok_def
        by (auto simp: Let_def split: if_splits)
    next
      case (Cons x xs)
      with \<open>split_arrow line = k # r\<close> \<open>r = d # r'\<close> assms show ?thesis
        by (simp add: build_dict_line_def)
    qed
  qed
qed

lemma build_dict_ok: "dict_ok m \<Longrightarrow> dict_ok (fst (build_dict lines m ign))"
proof (induction lines arbitrary: m)
  case Nil
  then show ?case by simp
next
  case (Cons line lines)
  show ?case
  proof (cases "build_dict_line line m ign")
    case (Inl e)
    with Cons.prems show ?thesis by simp
  next
    case (Inr m')
    with Cons.prems have "dict_ok m'" by (auto intro: build_dict_line_ok)
    with Cons.IH Inr show ?thesis by simp
  qed
qed

lemma ask_for_word_fix_ok:
  assumes "entry_ok e"
  shows "entry_ok (ar_misspelling (ask_for_word_fix match e i stdin))"
  using assms
  by (auto simp: ask_for_word_fix_def ask_return_def entry_ok_def Let_def split: prod.splits)

lemma ask_for_word_fix_reason:
  "ms_reason (ar_misspelling (ask_for_word_fix match e i stdin)) = ms_reason e"
  by (auto simp: ask_for_word_fix_def ask_return_def Let_def split: prod.splits)

lemma ask_for_word_fix_fix:
  "ar_fix (ask_for_word_fix match e i stdin) = ms_fix (ar_misspelling (ask_for_word_fix match e i stdin))"
  by (auto simp: ask_for_word_fix_def ask_return_def Let_def split: prod.splits)

section \<open>The interactive resolver\<close>

text \<open>
  The choice loop on its first line of input: a blank line declines, an index that
  selects a non-empty candidate returns it, and input that is no index of the candidate
  list prints the complaint and goes round again on the rest of the input.
\<close>

lemma choose_loop_blank:
  "strip l = [] \<Longrightarrow> choose_loop w opt (l # ls) = ([], ls, [ChoosePrompt (map (fix_case w) opt)])"
  by simp

lemma choose_loop_valid:
  "strip l \<noteq> [] \<Longrightarrow> py_int (strip l) = Some i \<Longrightarrow> py_index opt i = Some r \<Longrightarrow> r \<noteq> [] \<Longrightarrow>
   choose_loop w opt (l # ls) = (r, ls, [ChoosePrompt (map (fix_case w) opt)])"
  by simp

lemma choose_loop_invalid:
  "strip l \<noteq> [] \<Longrightarrow> py_int (strip l) = None \<or> (\<exists>i. py_int (strip l) = Some i \<and> py_index opt i = None) \<Longrightarrow>
   choose_loop w opt (l # ls) =
     (case choose_loop w opt ls of (r, rest, ev) \<Rightarrow>
        (r, rest, ChoosePrompt (map (fix_case w) opt) # NotValidOption # ev))"
  by (auto simp: Let_def)

text \<open>
  C7, at the input where the code departs from it. Under interactivity 2 the entry
  \<open>teh->the\<close>, which has an empty reason and the single candidate \<open>the\<close>, is put to
  the user as a choice: the code tests the reason only, never the number of candidates.
\<close>

theorem choose_prompt_single_candidate:
  "ask_for_word_fix \<lparr>m_start = 0, m_end = 3, m_group = ''teh''\<rparr>
      \<lparr>ms_data = ''the'', ms_fix = True, ms_reason = []\<rparr> 2 [''\<newline>'']
    = \<lparr>ar_fix = True, ar_fixword = ''the'',
       ar_misspelling = \<lparr>ms_data = ''the'', ms_fix = True, ms_reason = []\<rparr>,
       ar_stdin = [], ar_out = [ChoosePrompt [''the'']]\<rparr> \<and>
   split_comma ''the'' = [''the'']"
  by code_simp

section \<open>The line scanner\<close>

lemma resolve_fix: "ar_fix (resolve opts match ms st) = ms_fix (ar_misspelling (resolve opts match ms st))"
  by (simp add: resolve_def ask_for_word_fix_fix ask_return_def)

lemma resolve_reason: "ms_reason (ar_misspelling (resolve opts match ms st)) = ms_reason ms"
  by (simp add: resolve_def ask_for_word_fix_reason ask_return_def)

lemma resolve_ok: "entry_ok ms \<Longrightarrow> entry_ok (ar_misspelling (resolve opts match ms st))"
  by (simp add: resolve_def ask_for_word_fix_ok ask_return_def)

lemma process_matches_inv:
  assumes step: "\<And>m st st'. P st \<Longrightarrow> process_match env opts i m st = Inr st' \<Longrightarrow> P st'"
    and "P st" "process_matches env opts i ms st = Inr st'"
  shows "P st'"
  using assms(2,3)
proof (induction ms arbitrary: st)
  case Nil
  then show ?case by simp
next
  case (Cons m ms)
  then show ?case
    by (cases "process_match env opts i m st") (auto intro: step)
qed

lemma parse_lines_inv:
  assumes step: "\<And>i m st st'. P st \<Longrightarrow> process_match env opts i m st = Inr st' \<Longrightarrow> P st'"
    and reset: "\<And>st. P st \<Longrightarrow> P (st\<lparr>st_fixed_words := {}, st_asked_for := {}\<rparr>)"
    and "P st" "parse_lines env opts excl uiw i lines st = Inr st'"
  shows "P st'"
  using assms(3,4)
proof (induction lines arbitrary: st i)
  case Nil
  then show ?case by simp
next
  case (Cons line lines)
  show ?case
  proof (cases "parse_line env opts excl uiw i line st")
    case (Inl e)
    with Cons.prems show ?thesis by simp
  next
    case (Inr st1)
    have "P st1"
    proof (cases "line \<in> excl")
      case True
      with Inr Cons.prems(1) show ?thesis by (simp add: parse_line_def)
    next
      case False
      with Inr have "process_matches env opts i (line_matches env uiw line)
          (st\<lparr>st_fixed_words := {}, st_asked_for := {}\<rparr>) = Inr st1"
        by (simp add: parse_line_def)
      then show ?thesis
        using process_matches_inv[of P env opts i] step reset[OF Cons.prems(1)] by blast
    qed
    with Cons.IH[of st1 "Suc i"] Cons.prems(2) Inr show ?thesis by simp
  qed
qed

lemma fold_filename_word_inv:
  assumes step: "\<And>w st. P st \<Longrightarrow> P (filename_word opts w st)" and "P st"
  shows "P (fold (filename_word opts) ws st)"
  using assms(2) by (induction ws arbitrary: st) (auto intro: step)

text \<open>A property kept by every step of the scan holds of the state that \<open>parse_file\<close>
  returns, or of the state before the file is written back.\<close>

lemma parse_file_inv:
  assumes step: "\<And>i m st st'. P st \<Longrightarrow> process_match env opts i m st = Inr st' \<Longrightarrow> P st'"
    and reset: "\<And>st. P st \<Longrightarrow> P (st\<lparr>st_fixed_words := {}, st_asked_for := {}\<rparr>)"
    and fname: "\<And>w st. P st \<Longrightarrow> P (filename_word opts w st)"
    and lines: "\<And>st ls. P st \<Longrightarrow> P (st\<lparr>st_lines := ls\<rparr>)"
    and stdin: "\<And>st. P st \<Longrightarrow> P (st\<lparr>st_stdin := []\<rparr>)"
    and init: "P \<lparr>st_bad_count = 0, st_lines = [], st_changed = False, st_fixed_words = {},
                st_asked_for = {}, st_misspellings = misspellings, st_summary = summary,
                st_stdin = stdin, st_disk = disk, st_out = [], st_findings = []\<rparr>"
    and run: "parse_file env filename summary misspellings excl uiw opts disk stdin = Inr st'"
  shows "\<exists>st enc. P st \<and> st' = st \<or> (P st \<and> st' = write_back filename enc st)"
proof -
  let ?st0 = "\<lparr>st_bad_count = 0, st_lines = [], st_changed = False, st_fixed_words = {},
                st_asked_for = {}, st_misspellings = misspellings, st_summary = summary,
                st_stdin = stdin, st_disk = disk, st_out = [], st_findings = []\<rparr>"
  have scan: "\<exists>st. P st \<and> st' = write_back filename enc st"
    if "P st1" "scan_lines env opts excl uiw filename enc ls st1 = Inr st'" for st1 enc ls
  proof -
    from that(2) obtain st2 where
      p: "parse_lines env opts excl uiw 0 ls (st1\<lparr>st_lines := ls\<rparr>) = Inr st2"
      and w: "st' = write_back filename enc st2"
      by (auto simp: scan_lines_def split: sum.splits)
    have "P st2"
    proof (rule parse_lines_inv[where P = P])
      show "P (st1\<lparr>st_lines := ls\<rparr>)" by (rule lines[OF that(1)])
      show "parse_lines env opts excl uiw 0 ls (st1\<lparr>st_lines := ls\<rparr>) = Inr st2" by (rule p)
    qed (auto intro: step reset)
    with w show ?thesis by blast
  qed
  show ?thesis
  proof (cases "filename = ''-''")
    case True
    with run have "scan_lines env opts excl uiw filename ''utf-8'' stdin (?st0\<lparr>st_stdin := []\<rparr>) = Inr st'"
      by (simp add: parse_file_def)
    with scan[OF stdin[OF init]] show ?thesis by blast
  next
    case False
    define st1 where "st1 = (if check_filenames opts
                      then fold (filename_word opts) (extract_words env filename) ?st0 else ?st0)"
    have "P (fold (filename_word opts) (extract_words env filename) ?st0)"
      by (rule fold_filename_word_inv[where P = P]) (auto intro: fname init)
    then have p1: "P st1"
      unfolding st1_def using init by simp
    show ?thesis
    proof (cases "disk filename")
      case None
      with run False have "st' = st1" by (simp add: parse_file_def st1_def Let_def)
      with p1 show ?thesis by blast
    next
      case (Some node)
      show ?thesis
      proof (cases node)
        case (TextFile enc ls)
        with run False Some have "scan_lines env opts excl uiw filename enc ls st1 = Inr st'"
          by (simp add: parse_file_def st1_def Let_def)
        with scan[OF p1] show ?thesis by blast
      qed (use run False Some p1 in \<open>auto simp: parse_file_def st1_def Let_def\<close>)
    qed
  qed
qed

lemma process_match_count:
  assumes "st_bad_count st = length (filter (counted opts) (st_findings st))"
    "process_match env opts i m st = Inr st'"
  shows "st_bad_count st' = length (filter (counted opts) (st_findings st'))"
  using assms
  by (auto simp: process_match_def Let_def counted_def suppressed_def resolve_reason
      split: option.splits sum.splits if_splits)

lemma filename_word_count:
  assumes "st_bad_count st = length (filter (counted opts) (st_findings st))"
  shows "st_bad_count (filename_word opts w st) = length (filter (counted opts) (st_findings (filename_word opts w st)))"
  using assms
  by (auto simp: filename_word_def Let_def counted_def split: option.splits)

lemma process_match_changed:
  assumes "(st_changed st \<longrightarrow> (\<exists>f\<in>set (st_findings st). write_changes opts \<and> f_fix f)) \<and> st_disk st = disk"
    "process_match env opts i m st = Inr st'"
  shows "(st_changed st' \<longrightarrow> (\<exists>f\<in>set (st_findings st'). write_changes opts \<and> f_fix f)) \<and> st_disk st' = disk"
  using assms
  by (auto simp: process_match_def Let_def split: option.splits sum.splits if_splits)

lemma filename_word_changed:
  assumes "(st_changed st \<longrightarrow> (\<exists>f\<in>set (st_findings st). write_changes opts \<and> f_fix f)) \<and> st_disk st = disk"
  shows "(st_changed (filename_word opts w st) \<longrightarrow> (\<exists>f\<in>set (st_findings (filename_word opts w st)). write_changes opts \<and> f_fix f)) \<and> st_disk (filename_word opts w st) = disk"
  using assms
  by (auto simp: filename_word_def Let_def split: option.splits)

lemma process_match_dict_ok:
  assumes "dict_ok (st_misspellings st)" "process_match env opts i m st = Inr st'"
  shows "dict_ok (st_misspellings st')"
proof (cases "st_misspellings st (lower (m_group m))")
  case None
  with assms show ?thesis by (simp add: process_match_def Let_def)
next
  case (Some ms)
  with assms(1) have "entry_ok ms" by (auto simp: dict_ok_def)
  then have ok: "entry_ok (ar_misspelling (resolve opts m ms st))" by (rule resolve_ok)
  have "st_misspellings st' = (st_misspellings st)(lower (m_group m) \<mapsto> ar_misspelling (resolve opts m ms st))"
    using assms(2) Some
    by (auto simp: process_match_def Let_def split: sum.splits if_splits)
  with assms(1) ok show ?thesis by (auto simp: dict_ok_def)
qed

lemma filename_word_dict: "st_misspellings (filename_word opts w st) = st_misspellings st"
  by (auto simp: filename_word_def Let_def split: option.splits)

lemma write_back_fields:
  "st_bad_count (write_back f e st) = st_bad_count st"
  "st_findings (write_back f e st) = st_findings st"
  "st_misspellings (write_back f e st) = st_misspellings st"
  "st_changed (write_back f e st) = st_changed st"
  by (simp_all add: write_back_def)

text \<open>
  C1, as the code has it. The number that \<open>parse_file\<close> returns is the number of the
  findings it counts: a finding in the file name unless a quiet bit suppresses it; a
  finding on a line unless it is suppressed, or write mode fixes it, or the same word was
  fixed on that line before. A finding to which write mode applies a fix is not counted.
\<close>

theorem parse_file_bad_count:
  assumes "parse_file env filename summary misspellings exclude_lines uri_ignore_words opts disk stdin = Inr st"
  shows "st_bad_count st = length (filter (counted opts) (st_findings st))"
proof -
  let ?P = "\<lambda>st. st_bad_count st = length (filter (counted opts) (st_findings st))"
  have "\<exists>st0 enc. ?P st0 \<and> st = st0 \<or> (?P st0 \<and> st = write_back filename enc st0)"
  proof (rule parse_file_inv[where P = ?P, OF _ _ _ _ _ _ assms])
    show "?P st' " if "?P st" "process_match env opts i m st = Inr st'" for i m st st'
      using that by (rule process_match_count)
    show "?P (filename_word opts w st)" if "?P st" for w st
      using that by (rule filename_word_count)
  qed simp_all
  then show ?thesis by (auto simp: write_back_fields)
qed

theorem parse_file_bad_count_witness:
  "\<not> isl (demo_run {} (demo_options 0 True) [''teh foo clas\<newline>''] []) \<and>
   st_bad_count (projr (demo_run {} (demo_options 0 True) [''teh foo clas\<newline>''] [])) =
     length (filter (counted (demo_options 0 True))
       (st_findings (projr (demo_run {} (demo_options 0 True) [''teh foo clas\<newline>''] [])))) \<and>
   st_bad_count (projr (demo_run {} (demo_options 0 True) [''teh foo clas\<newline>''] [])) = 2 \<and>
   length (st_findings (projr (demo_run {} (demo_options 0 True) [''teh foo clas\<newline>''] []))) = 3"
proof -
  let ?R = "demo_run {} (demo_options 0 True) [''teh foo clas\<newline>''] []"
  have r: "\<not> isl ?R" by code_simp
  then have e: "parse_file (default_env None) ''notes.txt'' None demo_misspellings {} {} (demo_options 0 True)
       [''notes.txt'' \<mapsto> TextFile ''utf-8'' [''teh foo clas\<newline>'']] [] = Inr (projr ?R)"
    unfolding demo_run_def by (rule sum.collapse(2)[symmetric])
  have c: "st_bad_count (projr ?R) = length (filter (counted (demo_options 0 True)) (st_findings (projr ?R)))"
    using e by (rule parse_file_bad_count)
  have v: "st_bad_count (projr ?R) = 2" by code_simp
  have n: "length (st_findings (projr ?R)) = 3" by code_simp
  from r c v n show ?thesis by (intro conjI)
qed

text \<open>
  C1, as stated, fails: in write mode the automatic fix of \<open>teh\<close> is a finding that
  none of the three rules suppresses, and the count of the file stays at zero.
\<close>

theorem fixed_finding_not_counted_counterexample:
  "\<not> isl (demo_run {} (demo_options 0 True) [''teh\<newline>''] []) \<and>
   map f_word (st_findings (projr (demo_run {} (demo_options 0 True) [''teh\<newline>''] []))) = [''teh''] \<and>
   filter (suppressed (demo_options 0 True))
     (st_findings (projr (demo_run {} (demo_options 0 True) [''teh\<newline>''] []))) = [] \<and>
   st_bad_count (projr (demo_run {} (demo_options 0 True) [''teh\<newline>''] [])) = 0"
  by code_simp

text \<open>
  C8. If no finding of the scan of a file has write mode enabled together with a
  positive fix decision, the file system after \<open>parse_file\<close> is the file system
  before it: the file is never opened for writing, and the scan has not marked it as
  changed.
\<close>

theorem no_affirmative_fix_no_write:
  assumes run: "parse_file env filename summary misspellings exclude_lines uri_ignore_words opts disk stdin = Inr st"
    and none: "\<forall>f\<in>set (st_findings st). \<not> (write_changes opts \<and> f_fix f)"
  shows "st_disk st = disk \<and> \<not> st_changed st"
proof -
  let ?P = "\<lambda>st. (st_changed st \<longrightarrow> (\<exists>f\<in>set (st_findings st). write_changes opts \<and> f_fix f)) \<and>
                 st_disk st = disk"
  have "\<exists>st0 enc. ?P st0 \<and> st = st0 \<or> (?P st0 \<and> st = write_back filename enc st0)"
  proof (rule parse_file_inv[where P = ?P, OF _ _ _ _ _ _ run])
    show "?P st'" if "?P st" "process_match env opts i m st = Inr st'" for i m st st'
      using that by (rule process_match_changed)
    show "?P (filename_word opts w st)" if "?P st" for w st
      using that by (rule filename_word_changed)
  qed simp_all
  then obtain st0 enc where p: "?P st0" and s: "st = st0 \<or> st = write_back filename enc st0"
    by blast
  from s have f: "st_findings st = st_findings st0" and c: "st_changed st = st_changed st0"
    by (auto simp: write_back_fields)
  from p none f have nc: "\<not> st_changed st0" by auto
  with s have "st = st0" by (auto simp: write_back_def)
  with p nc show ?thesis by simp
qed

theorem no_affirmative_fix_no_write_witness:
  "\<not> isl (demo_run {} (demo_options 1 True) [''teh foo\<newline>''] [''n\<newline>'']) \<and>
   map f_fix (st_findings (projr (demo_run {} (demo_options 1 True) [''teh foo\<newline>''] [''n\<newline>'']))) =
     [False, False] \<and>
   st_disk (projr (demo_run {} (demo_options 1 True) [''teh foo\<newline>''] [''n\<newline>''])) =
     [''notes.txt'' \<mapsto> TextFile ''utf-8'' [''teh foo\<newline>'']] \<and>
   \<not> st_changed (projr (demo_run {} (demo_options 1 True) [''teh foo\<newline>''] [''n\<newline>'']))"
proof -
  let ?R = "demo_run {} (demo_options 1 True) [''teh foo\<newline>''] [''n\<newline>'']"
  have r: "\<not> isl ?R" by code_simp
  then have e: "parse_file (default_env None) ''notes.txt'' None demo_misspellings {} {} (demo_options 1 True)
       [''notes.txt'' \<mapsto> TextFile ''utf-8'' [''teh foo\<newline>'']] [''n\<newline>''] = Inr (projr ?R)"
    unfolding demo_run_def by (rule sum.collapse(2)[symmetric])
  have f: "map f_fix (st_findings (projr ?R)) = [False, False]" by code_simp
  have "\<not> f_fix f" if "f \<in> set (st_findings (projr ?R))" for f
  proof -
    from that have "f_fix f \<in> set (map f_fix (st_findings (projr ?R)))" by auto
    then show ?thesis unfolding f by simp
  qed
  then have h: "\<forall>f\<in>set (st_findings (projr ?R)). \<not> (write_changes (demo_options 1 True) \<and> f_fix f)"
    by blast
  have "st_disk (projr ?R) = [''notes.txt'' \<mapsto> TextFile ''utf-8'' [''teh foo\<newline>'']] \<and>
     \<not> st_changed (projr ?R)"
    using e h by (rule no_affirmative_fix_no_write)
  with r f show ?thesis by (intro conjI) simp_all
qed

lemma parse_file_dict_ok:
  assumes ok: "dict_ok misspellings"
    and run: "parse_file env filename summary misspellings exclude_lines uri_ignore_words opts disk stdin = Inr st"
  shows "dict_ok (st_misspellings st)"
proof -
  let ?P = "\<lambda>st. dict_ok (st_misspellings st)"
  have "\<exists>st0 enc. ?P st0 \<and> st = st0 \<or> (?P st0 \<and> st = write_back filename enc st0)"
  proof (rule parse_file_inv[where P = ?P, OF _ _ _ _ _ _ run])
    show "?P st'" if "?P st" "process_match env opts i m st = Inr st'" for i m st st'
      using that by (rule process_match_dict_ok)
    show "?P (filename_word opts w st)" if "?P st" for w st
      using that by (simp add: filename_word_dict)
  qed (simp_all add: ok)
  then show ?thesis by (auto simp: write_back_fields)
qed

text \<open>
  C9. A reason disables the automatic fix, and stays so: \<open>build_dict\<close> keeps the
  invariant of every entry of the dictionary (whether or not a line fails),
  \<open>ask_for_word_fix\<close> keeps it of the entry it may rewrite, and so does a whole scan
  of a file by \<open>parse_file\<close>, which changes the dictionary only through the resolver.
\<close>

theorem reason_disables_fix_invariant:
  "(dict_ok m \<longrightarrow> dict_ok (fst (build_dict lines m ignore_words))) \<and>
   (entry_ok e \<longrightarrow> entry_ok (ar_misspelling (ask_for_word_fix match e interactivity stdin))) \<and>
   (dict_ok m \<and>
    parse_file env filename summary m exclude_lines uri_ignore_words opts disk stdin = Inr st \<longrightarrow>
      dict_ok (st_misspellings st))"
  using build_dict_ok ask_for_word_fix_ok parse_file_dict_ok by blast

theorem reason_disables_fix_invariant_witness:
  "dict_ok Map.empty \<and> dict_ok demo_misspellings \<and>
   entry_ok \<lparr>ms_data = ''bar, baz'', ms_fix = False, ms_reason = []\<rparr> \<and>
   entry_ok (ar_misspelling (ask_for_word_fix \<lparr>m_start = 0, m_end = 3, m_group = ''foo''\<rparr>
      \<lparr>ms_data = ''bar, baz'', ms_fix = False, ms_reason = []\<rparr> 2 [''1\<newline>''])) \<and>
   \<not> isl (demo_run {} (demo_options 3 True) [''teh foo clas\<newline>''] [''n\<newline>'', ''1\<newline>'']) \<and>
   dict_ok (st_misspellings (projr (demo_run {} (demo_options 3 True) [''teh foo clas\<newline>''] [''n\<newline>'', ''1\<newline>''])))"
proof -
  let ?e = "\<lparr>ms_data = ''bar, baz'', ms_fix = False, ms_reason = []\<rparr>"
  let ?m = "\<lparr>m_start = 0, m_end = 3, m_group = ''foo''\<rparr>"
  let ?R = "demo_run {} (demo_options 3 True) [''teh foo clas\<newline>''] [''n\<newline>'', ''1\<newline>'']"
  note t = reason_disables_fix_invariant[where m = Map.empty and lines = demo_dictionary
      and ignore_words = "{}" and e = ?e and match = ?m and interactivity = 2 and stdin = "[''1\<newline>'']"]
  have a: "dict_ok Map.empty" by (simp add: dict_ok_def)
  from t have "dict_ok Map.empty \<longrightarrow> dict_ok (fst (build_dict demo_dictionary Map.empty {}))"
    by (rule conjunct1)
  from this a have b: "dict_ok demo_misspellings" unfolding demo_misspellings_def by (rule mp)
  have c: "entry_ok ?e" by (simp add: entry_ok_def)
  from t have "entry_ok ?e \<longrightarrow> entry_ok (ar_misspelling (ask_for_word_fix ?m ?e 2 [''1\<newline>'']))"
    by (rule conjunct1[OF conjunct2])
  from this c have d: "entry_ok (ar_misspelling (ask_for_word_fix ?m ?e 2 [''1\<newline>'']))" by (rule mp)
  have r: "\<not> isl ?R" by code_simp
  then have e: "parse_file (default_env None) ''notes.txt'' None demo_misspellings {} {} (demo_options 3 True)
       [''notes.txt'' \<mapsto> TextFile ''utf-8'' [''teh foo clas\<newline>'']] [''n\<newline>'', ''1\<newline>''] = Inr (projr ?R)"
    unfolding demo_run_def by (rule sum.collapse(2)[symmetric])
  have "dict_ok demo_misspellings \<and>
    parse_file (default_env None) ''notes.txt'' None demo_misspellings {} {} (demo_options 3 True)
       [''notes.txt'' \<mapsto> TextFile ''utf-8'' [''teh foo clas\<newline>'']] [''n\<newline>'', ''1\<newline>''] = Inr (projr ?R)
    \<longrightarrow> dict_ok (st_misspellings (projr ?R))"
    using reason_disables_fix_invariant[where m = demo_misspellings and env = "default_env None"
        and filename = "''notes.txt''" and summary = None and exclude_lines = "{}"
        and uri_ignore_words = "{}" and opts = "demo_options 3 True"
        and disk = "[''notes.txt'' \<mapsto> TextFile ''utf-8'' [''teh foo clas\<newline>'']]"
        and stdin = "[''n\<newline>'', ''1\<newline>'']" and st = "projr ?R"]
    by (rule conjunct2[OF conjunct2])
  moreover from b e have "dict_ok demo_misspellings \<and>
    parse_file (default_env None) ''notes.txt'' None demo_misspellings {} {} (demo_options 3 True)
       [''notes.txt'' \<mapsto> TextFile ''utf-8'' [''teh foo clas\<newline>'']] [''n\<newline>'', ''1\<newline>''] = Inr (projr ?R)"
    by (rule conjI)
  ultimately have f: "dict_ok (st_misspellings (projr ?R))" by (rule mp)
  from a b c d r f show ?thesis by (intro conjI)
qed

section \<open>Words in URIs\<close>

lemma remove_first_found:
  "(\<forall>x\<in>set pre. m_group x \<noteq> w) \<Longrightarrow> m_group m = w \<Longrightarrow> remove_first w (pre @ m # post) = pre @ post"
  by (induction pre) auto

lemma remove_first_absent: "(\<forall>x\<in>set cm. m_group x \<noteq> w) \<Longrightarrow> remove_first w cm = cm"
  by (induction cm) auto

lemma fold_remove_first_filter:
  "fold (\<lambda>uri_word cm. if uri_word \<in> uiw then remove_first uri_word cm else cm) ws cm =
   fold remove_first (filter (\<lambda>w. w \<in> uiw) ws) cm"
  by (induction ws arbitrary: cm) auto

lemma fold_uris_remove_first:
  "fold (\<lambda>uri cm.
           fold (\<lambda>uri_word cm. if uri_word \<in> uiw then remove_first uri_word cm else cm)
                (extract_words env uri) cm) uris cm =
   fold remove_first (filter (\<lambda>w. w \<in> uiw) (concat (map (extract_words env) uris))) cm"
  by (induction uris arbitrary: cm) (simp_all add: fold_remove_first_filter)

lemma apply_uri_ignore_words_fold:
  "apply_uri_ignore_words env cm line uiw =
   fold remove_first
     (filter (\<lambda>w. w \<in> uiw) (concat (map (extract_words env) (uri_findall env line)))) cm"
  by (cases "uiw = {}") (simp_all add: apply_uri_ignore_words_def fold_uris_remove_first)

text \<open>
  C3, as the code has it. Without the wildcard among the URI ignore words, the matches
  checked on a line are the matches of the whole line after one removal for each word
  of each URI that is an ignore word, in their order. A removal takes away the first
  match whose text is that word and leaves the others, a duplicate of the word among
  them; when no match has that text, it takes away nothing.
\<close>

theorem uri_ignore_words_remove_first:
  "(''*'' \<notin> uri_ignore_words \<longrightarrow>
      line_matches env uri_ignore_words line =
        fold remove_first
          (filter (\<lambda>w. w \<in> uri_ignore_words)
             (concat (map (extract_words env) (uri_findall env line))))
          (extract_words_iter env line)) \<and>
   (\<forall>pre m post. check_matches = pre @ m # post \<and> m_group m = uri_word \<and>
        (\<forall>x\<in>set pre. m_group x \<noteq> uri_word) \<longrightarrow>
      remove_first uri_word check_matches = pre @ post) \<and>
   ((\<forall>x\<in>set check_matches. m_group x \<noteq> uri_word) \<longrightarrow>
      remove_first uri_word check_matches = check_matches)"
  by (simp add: line_matches_def Let_def apply_uri_ignore_words_fold remove_first_found
      remove_first_absent)

theorem uri_ignore_words_remove_first_witness:
  "''*'' \<notin> {''foo''} \<and>
   line_matches (default_env None) {''foo''} ''see http://x.com/foo and foo\<newline>'' =
     fold remove_first
       (filter (\<lambda>w. w \<in> {''foo''})
          (concat (map (extract_words (default_env None))
             (uri_findall (default_env None) ''see http://x.com/foo and foo\<newline>''))))
       (extract_words_iter (default_env None) ''see http://x.com/foo and foo\<newline>'') \<and>
   map m_group (line_matches (default_env None) {''foo''} ''see http://x.com/foo and foo\<newline>'') =
     [''see'', ''http'', ''x'', ''com'', ''and'', ''foo''] \<and>
   remove_first ''foo''
     [\<lparr>m_start = 0, m_end = 3, m_group = ''bar''\<rparr>, \<lparr>m_start = 4, m_end = 7, m_group = ''foo''\<rparr>,
      \<lparr>m_start = 8, m_end = 11, m_group = ''foo''\<rparr>] =
     [\<lparr>m_start = 0, m_end = 3, m_group = ''bar''\<rparr>, \<lparr>m_start = 8, m_end = 11, m_group = ''foo''\<rparr>] \<and>
   remove_first ''foo'' [\<lparr>m_start = 0, m_end = 3, m_group = ''bar''\<rparr>] =
     [\<lparr>m_start = 0, m_end = 3, m_group = ''bar''\<rparr>]"
proof -
  let ?E = "default_env None"
  let ?L = "''see http://x.com/foo and foo\<newline>''"
  let ?b = "\<lparr>m_start = 0, m_end = 3, m_group = ''bar''\<rparr>"
  let ?f1 = "\<lparr>m_start = 4, m_end = 7, m_group = ''foo''\<rparr>"
  let ?f2 = "\<lparr>m_start = 8, m_end = 11, m_group = ''foo''\<rparr>"
  have h: "''*'' \<notin> {''foo''}" by simp
  have "''*'' \<notin> {''foo''} \<longrightarrow>
      line_matches ?E {''foo''} ?L =
        fold remove_first
          (filter (\<lambda>w. w \<in> {''foo''}) (concat (map (extract_words ?E) (uri_findall ?E ?L))))
          (extract_words_iter ?E ?L)"
    using uri_ignore_words_remove_first[where uri_ignore_words = "{''foo''}" and env = ?E and line = ?L]
    by (rule conjunct1)
  from this h have a: "line_matches ?E {''foo''} ?L =
        fold remove_first
          (filter (\<lambda>w. w \<in> {''foo''}) (concat (map (extract_words ?E) (uri_findall ?E ?L))))
          (extract_words_iter ?E ?L)" by (rule mp)
  have b: "map m_group (line_matches ?E {''foo''} ?L) = [''see'', ''http'', ''x'', ''com'', ''and'', ''foo'']"
    by code_simp
  have "\<forall>pre m post. [?b, ?f1, ?f2] = pre @ m # post \<and> m_group m = ''foo'' \<and>
        (\<forall>x\<in>set pre. m_group x \<noteq> ''foo'') \<longrightarrow>
      remove_first ''foo'' [?b, ?f1, ?f2] = pre @ post"
    using uri_ignore_words_remove_first[where check_matches = "[?b, ?f1, ?f2]" and uri_word = "''foo''"]
    by (rule conjunct1[OF conjunct2])
  then have "[?b, ?f1, ?f2] = [?b] @ ?f1 # [?f2] \<and> m_group ?f1 = ''foo'' \<and>
        (\<forall>x\<in>set [?b]. m_group x \<noteq> ''foo'') \<longrightarrow>
      remove_first ''foo'' [?b, ?f1, ?f2] = [?b] @ [?f2]"
    by (elim allE)
  moreover have "[?b, ?f1, ?f2] = [?b] @ ?f1 # [?f2] \<and> m_group ?f1 = ''foo'' \<and>
        (\<forall>x\<in>set [?b]. m_group x \<noteq> ''foo'')" by simp
  ultimately have "remove_first ''foo'' [?b, ?f1, ?f2] = [?b] @ [?f2]" by (rule mp)
  then have c: "remove_first ''foo'' [?b, ?f1, ?f2] = [?b, ?f2]" by simp
  have "(\<forall>x\<in>set [?b]. m_group x \<noteq> ''foo'') \<longrightarrow> remove_first ''foo'' [?b] = [?b]"
    using uri_ignore_words_remove_first[where check_matches = "[?b]" and uri_word = "''foo''"]
    by (rule conjunct2[OF conjunct2])
  moreover have "\<forall>x\<in>set [?b]. m_group x \<noteq> ''foo''" by simp
  ultimately have d: "remove_first ''foo'' [?b] = [?b]" by (rule mp)
  from h a b c d show ?thesis by (intro conjI)
qed

text \<open>
  C3, as stated, fails: in \<open>see `http://x.com/foo`\<close> the URI holds the ignore
  word \<open>http\<close>, the line has no match with that text (its match is \<open>`http\<close>), and
  no match is removed.
\<close>

theorem uri_word_without_match_counterexample:
  "''*'' \<notin> {''http''} \<and>
   uri_findall (default_env None) ''see `http://x.com/foo`\<newline>'' = [''http://x.com/foo`''] \<and>
   extract_words (default_env None) ''http://x.com/foo`'' = [''http'', ''x'', ''com'', ''foo`''] \<and>
   ''http'' \<in> {''http''} \<and>
   map m_group (extract_words_iter (default_env None) ''see `http://x.com/foo`\<newline>'') =
     [''see'', ''`http'', ''x'', ''com'', ''foo`''] \<and>
   line_matches (default_env None) {''http''} ''see `http://x.com/foo`\<newline>'' =
     extract_words_iter (default_env None) ''see `http://x.com/foo`\<newline>''"
  by code_simp

section \<open>A line rewritten at spans\<close>

text \<open>
  Replacing spans one after the other, as \<open>pattern.sub\<close> does, gives the line told
  position by position; and a stretch of the erased line that holds no blank is a
  stretch of the line itself, outside every span.
\<close>

lemma spans_ok_le: "spans_ok pos spans n \<Longrightarrow> pos \<le> n"
proof (induction spans arbitrary: pos)
  case Nil
  then show ?case by simp
next
  case (Cons span spans)
  then have "snd span \<le> n" "pos \<le> fst span" "fst span < snd span" by auto
  then show ?case by linarith
qed

lemma spans_ok_mem:
  "spans_ok pos spans n \<Longrightarrow> span \<in> set spans \<Longrightarrow> pos \<le> fst span \<and> fst span < snd span \<and> snd span \<le> n"
proof (induction spans arbitrary: pos)
  case Nil
  then show ?case by simp
next
  case (Cons a spans)
  then show ?case using spans_ok_le[of "snd a" spans n] by fastforce
qed

lemma rewritten_at_before:
  assumes "spans_ok pos spans n" "k < pos"
  shows "rewritten_at repl spans line k = [line ! k]"
  using spans_ok_mem[OF assms(1)] assms(2)
  by (fastforce simp: rewritten_at_def starts_span_def outside_spans_def list_ex_iff list_all_iff)

lemma rewritten_at_Cons_after:
  assumes "fst span < snd span" "snd span \<le> k"
  shows "rewritten_at repl (span # spans) line k = rewritten_at repl spans line k"
  using assms by (auto simp: rewritten_at_def starts_span_def outside_spans_def)

lemma upt_split: "i \<le> j \<Longrightarrow> j \<le> k \<Longrightarrow> [i..<k] = [i..<j] @ [j..<k]"
  using upt_add_eq_append[of i j "k - j"] by simp

lemma map_nth_slice: "b \<le> length xs \<Longrightarrow> map ((!) xs) [a..<b] = slice xs a b"
  by (rule nth_equalityI) (auto simp: slice_def)

lemma concat_map_nth: "b \<le> length xs \<Longrightarrow> concat (map (\<lambda>k. [xs ! k]) [a..<b]) = slice xs a b"
  using map_nth_slice[of b xs a] by (simp add: o_def)

lemma replace_from_rewritten:
  assumes "spans_ok pos spans (length line)"
  shows "replace_from repl pos spans line =
         concat (map (rewritten_at repl spans line) [pos..<length line])"
  using assms
proof (induction spans arbitrary: pos)
  case Nil
  have "rewritten_at repl [] line = (\<lambda>k. [line ! k])"
    by (rule ext) (simp add: rewritten_at_def starts_span_def outside_spans_def)
  then have "concat (map (rewritten_at repl [] line) [pos..<length line]) =
        concat (map (\<lambda>k. [line ! k]) [pos..<length line])"
    by (simp only:)
  also have "\<dots> = slice line pos (length line)" by (rule concat_map_nth) simp
  finally show ?case by (simp add: slice_def)
next
  case (Cons span spans)
  obtain a b where ab: "span = (a, b)" by (cases span)
  from Cons.prems ab have pa: "pos \<le> a" and lt: "a < b" and ok: "spans_ok b spans (length line)"
    by auto
  from ok have bn: "b \<le> length line" by (rule spans_ok_le)
  have split: "[pos..<length line] = [pos..<a] @ [a] @ [Suc a..<b] @ [b..<length line]"
  proof -
    have "[pos..<length line] = [pos..<a] @ [a..<length line]"
      using pa lt bn by (intro upt_split) auto
    also have "[a..<length line] = [a..<b] @ [b..<length line]"
      using lt bn by (intro upt_split) auto
    also have "[a..<b] = [a] @ [Suc a..<b]" using lt by (simp add: upt_conv_Cons)
    finally show ?thesis by simp
  qed
  have 1: "concat (map (rewritten_at repl (span # spans) line) [pos..<a]) = slice line pos a"
  proof -
    have "map (rewritten_at repl (span # spans) line) [pos..<a] = map (\<lambda>k. [line ! k]) [pos..<a]"
    proof (rule map_cong[OF refl])
      fix k assume "k \<in> set [pos..<a]"
      then have "k < a" by simp
      moreover have "spans_ok a (span # spans) (length line)" using ab lt ok by simp
      ultimately show "rewritten_at repl (span # spans) line k = [line ! k]"
        by (intro rewritten_at_before)
    qed
    then have "concat (map (rewritten_at repl (span # spans) line) [pos..<a]) =
        concat (map (\<lambda>k. [line ! k]) [pos..<a])" by (simp only:)
    also have "\<dots> = slice line pos a" using lt bn by (intro concat_map_nth) simp
    finally show ?thesis .
  qed
  have 2: "rewritten_at repl (span # spans) line a = repl"
    using spans_ok_mem[OF ok] lt
    by (fastforce simp: ab rewritten_at_def starts_span_def outside_spans_def list_all_iff)
  have 3: "concat (map (rewritten_at repl (span # spans) line) [Suc a..<b]) = []"
  proof -
    have "rewritten_at repl (span # spans) line k = []" if "k \<in> set [Suc a..<b]" for k
      using that spans_ok_mem[OF ok]
      by (fastforce simp: ab rewritten_at_def starts_span_def outside_spans_def list_ex_iff)
    then show ?thesis by simp
  qed
  have 4: "map (rewritten_at repl (span # spans) line) [b..<length line] =
           map (rewritten_at repl spans line) [b..<length line]"
    by (rule map_cong[OF refl]) (use lt ab in \<open>auto intro!: rewritten_at_Cons_after\<close>)
  let ?f = "rewritten_at repl (span # spans) line"
  have "concat (map ?f [pos..<length line]) =
      concat (map ?f [pos..<a]) @ ?f a @ concat (map ?f [Suc a..<b]) @
      concat (map ?f [b..<length line])"
    by (subst split) simp
  also have "\<dots> = slice line pos a @ repl @ [] @
      concat (map (rewritten_at repl spans line) [b..<length line])"
    by (simp only: 1 2 3 4)
  also have "\<dots> = replace_from repl pos (span # spans) line"
    using Cons.IH[OF ok] by (simp add: ab)
  finally show ?case by simp
qed

lemma sub_from_replace_from: "sub_from pos spans s = replace_from '' '' pos spans s"
  by (induction spans arbitrary: pos) auto

lemma sub_blank_rewritten:
  "spans_ok 0 spans (length line) \<Longrightarrow> sub_blank spans line = rewritten '' '' spans line"
  by (simp add: sub_blank_def sub_from_replace_from replace_from_rewritten rewritten_def)

lemma outside_spans_before:
  assumes "spans_ok pos spans n" "k < pos"
  shows "outside_spans spans k"
  using spans_ok_mem[OF assms(1)] assms(2)
  by (fastforce simp: outside_spans_def list_all_iff)

lemma slice_length: "a \<le> b \<Longrightarrow> b \<le> length xs \<Longrightarrow> length (slice xs a b) = b - a"
  by (simp add: slice_def)

lemma slice_slice_drop: "slice (drop p xs) s t = slice xs (p + s) (p + t)"
  by (simp add: slice_def add.commute)

lemma slice_append_left: "t \<le> length A \<Longrightarrow> slice (A @ B) s t = slice A s t"
  by (simp add: slice_def)

lemma slice_append_right: "length A \<le> s \<Longrightarrow> slice (A @ B) s t = slice B (s - length A) (t - length A)"
  by (simp add: slice_def)

lemma slice_slice: "t \<le> b - a \<Longrightarrow> slice (slice xs a b) s t = slice xs (a + s) (a + t)"
proof -
  assume t: "t \<le> b - a"
  have "slice (slice xs a b) s t = take (t - s) (take (b - a - s) (drop s (drop a xs)))"
    by (simp add: slice_def drop_take)
  also have "\<dots> = take (t - s) (drop (a + s) xs)"
    using t by (simp add: min_def add.commute)
  finally show ?thesis by (simp add: slice_def)
qed

lemma replace_from_origin:
  assumes "spans_ok pos spans (length line)"
    and "s < t" "t \<le> length (replace_from '' '' pos spans line)"
    and "\<forall>j. s \<le> j \<and> j < t \<longrightarrow> replace_from '' '' pos spans line ! j \<noteq> CHR '' ''"
  shows "\<exists>k. pos \<le> k \<and> k + (t - s) \<le> length line \<and>
           slice line k (k + (t - s)) = slice (replace_from '' '' pos spans line) s t \<and>
           (\<forall>j. k \<le> j \<and> j < k + (t - s) \<longrightarrow> outside_spans spans j)"
  using assms
proof (induction spans arbitrary: pos s t)
  case Nil
  then have n: "pos + t \<le> length line" by simp
  have 1: "slice line (pos + s) (pos + s + (t - s)) = slice (replace_from '' '' pos [] line) s t"
    using Nil.prems(2) by (simp add: slice_slice_drop)
  have 2: "\<forall>j. pos + s \<le> j \<and> j < pos + s + (t - s) \<longrightarrow> outside_spans [] j"
    by (simp add: outside_spans_def)
  have 3: "pos + s + (t - s) \<le> length line" using n Nil.prems(2) by simp
  have 4: "pos \<le> pos + s" by simp
  from 4 3 1 2 show ?case by blast
next
  case (Cons span spans)
  obtain a b where ab: "span = (a, b)" by (cases span)
  from Cons.prems(1) ab have pa: "pos \<le> a" and lt: "a < b" and ok: "spans_ok b spans (length line)"
    by auto
  from ok have bn: "b \<le> length line" by (rule spans_ok_le)
  let ?A = "slice line pos a"
  let ?B = "replace_from '' '' b spans line"
  let ?e = "replace_from '' '' pos (span # spans) line"
  have e: "?e = ?A @ '' '' @ ?B" by (simp add: ab)
  have lA: "length ?A = a - pos" using pa lt bn by (simp add: slice_def)
  have blank: "?e ! (a - pos) = CHR '' ''" unfolding e using lA by (simp add: nth_append)
  from Cons.prems(4) blank have notin: "\<not> (s \<le> a - pos \<and> a - pos < t)" by blast
  show ?case
  proof (cases "t \<le> a - pos")
    case True
    have 1: "slice ?e s t = slice line (pos + s) (pos + t)"
      unfolding e using True lA by (simp add: slice_append_left slice_slice)
    have 2: "outside_spans (span # spans) j" if "j < pos + t" for j
    proof -
      have "spans_ok a (span # spans) (length line)" using ab lt ok by simp
      moreover have "j < a" using that True pa by linarith
      ultimately show ?thesis by (rule outside_spans_before)
    qed
    have 3: "pos + s + (t - s) = pos + t" using Cons.prems(2) by simp
    have 4: "pos + t \<le> length line" using True pa lt bn by linarith
    have "pos \<le> pos + s \<and> pos + s + (t - s) \<le> length line \<and>
           slice line (pos + s) (pos + s + (t - s)) = slice ?e s t \<and>
           (\<forall>j. pos + s \<le> j \<and> j < pos + s + (t - s) \<longrightarrow> outside_spans (span # spans) j)"
      unfolding 3 using 4 1 2 by simp
    then show ?thesis by (rule exI)
  next
    case False
    with notin have s: "a - pos < s" by simp
    let ?s = "s - (a - pos) - 1" and ?t = "t - (a - pos) - 1"
    have st: "?s < ?t" using s Cons.prems(2) by simp
    have tl: "?t \<le> length ?B" using Cons.prems(3) s Cons.prems(2) unfolding e using lA by simp
    have nth: "?e ! j = ?B ! (j - (a - pos) - 1)" if "a - pos < j" for j
    proof -
      have "j - (a - pos) = Suc (j - (a - pos) - 1)" using that by simp
      then show ?thesis unfolding e using that lA
        by (simp add: nth_append)
    qed
    have nb: "\<forall>j. ?s \<le> j \<and> j < ?t \<longrightarrow> ?B ! j \<noteq> CHR '' ''"
    proof (intro allI impI)
      fix j assume j: "?s \<le> j \<and> j < ?t"
      then have "s \<le> j + (a - pos) + 1 \<and> j + (a - pos) + 1 < t" using s by arith
      with Cons.prems(4) have "?e ! (j + (a - pos) + 1) \<noteq> CHR '' ''" by blast
      then show "?B ! j \<noteq> CHR '' ''" using nth[of "j + (a - pos) + 1"] by simp
    qed
    from Cons.IH[OF ok st tl nb] obtain k where k: "b \<le> k" "k + (?t - ?s) \<le> length line"
      "slice line k (k + (?t - ?s)) = slice ?B ?s ?t"
      "\<forall>j. k \<le> j \<and> j < k + (?t - ?s) \<longrightarrow> outside_spans spans j"
      by (elim exE conjE)
    have d: "?t - ?s = t - s" using s Cons.prems(2) by simp
    have 1: "slice ?e s t = slice ?B ?s ?t"
    proof -
      have "slice ((?A @ '' '') @ ?B) s t = slice ?B (s - length (?A @ '' '')) (t - length (?A @ '' ''))"
        by (rule slice_append_right) (use s lA in simp)
      then show ?thesis unfolding e using lA by simp
    qed
    have 2: "outside_spans (span # spans) j" if "k \<le> j \<and> j < k + (t - s)" for j
      using that k(1,4) d lt by (auto simp: outside_spans_def ab)
    have 5: "pos \<le> k" using k(1) pa lt by linarith
    have "pos \<le> k \<and> k + (t - s) \<le> length line \<and>
           slice line k (k + (t - s)) = slice ?e s t \<and>
           (\<forall>j. k \<le> j \<and> j < k + (t - s) \<longrightarrow> outside_spans (span # spans) j)"
      using 5 k(2,3) 1 2 unfolding d by simp
    then show ?thesis by (rule exI)
  qed
qed

section \<open>The wildcard among the URI ignore words\<close>

text \<open>
  The findings that the scan of a line adds are the words of its matches that are in the
  dictionary, in their order; and a match of the default word pattern is never empty and
  holds no blank.
\<close>

lemma process_match_findings:
  assumes "process_match env opts i m st = Inr st'"
  shows "\<exists>new. st_findings st' = st_findings st @ new \<and>
           map f_word new = (if st_misspellings st (lower (m_group m)) \<noteq> None then [m_group m] else [])"
    and "(st_misspellings st' k \<noteq> None) = (st_misspellings st k \<noteq> None)"
  using assms
  by (auto simp: process_match_def Let_def split: option.splits sum.splits if_splits)

lemma process_matches_findings:
  assumes "process_matches env opts i ms st = Inr st'"
  shows "\<exists>new. st_findings st' = st_findings st @ new \<and>
           map f_word new = filter (\<lambda>w. st_misspellings st (lower w) \<noteq> None) (map m_group ms)"
  using assms
proof (induction ms arbitrary: st)
  case Nil
  then show ?case by simp
next
  case (Cons m ms)
  from Cons.prems obtain st1 where 1: "process_match env opts i m st = Inr st1"
    and 2: "process_matches env opts i ms st1 = Inr st'"
    by (auto split: sum.splits)
  from process_match_findings(1)[OF 1] obtain n1 where n1: "st_findings st1 = st_findings st @ n1"
    "map f_word n1 = (if st_misspellings st (lower (m_group m)) \<noteq> None then [m_group m] else [])"
    by blast
  have same: "(\<lambda>w. st_misspellings st1 (lower w) \<noteq> None) = (\<lambda>w. st_misspellings st (lower w) \<noteq> None)"
    using process_match_findings(2)[OF 1] by (intro ext) blast
  from Cons.IH[OF 2] obtain n2 where n2: "st_findings st' = st_findings st1 @ n2"
    "map f_word n2 = filter (\<lambda>w. st_misspellings st1 (lower w) \<noteq> None) (map m_group ms)"
    by blast
  have "st_findings st' = st_findings st @ (n1 @ n2)" using n1(1) n2(1) by simp
  moreover have "map f_word (n1 @ n2) =
      filter (\<lambda>w. st_misspellings st (lower w) \<noteq> None) (map m_group (m # ms))"
    using n1(2) n2(2) unfolding same by simp
  ultimately show ?case by blast
qed

lemma parse_line_findings:
  assumes "line \<notin> exclude_lines"
    "parse_line env opts exclude_lines uri_ignore_words i line st = Inr st'"
  shows "\<exists>new. st_findings st' = st_findings st @ new \<and>
           map f_word new = filter (\<lambda>w. st_misspellings st (lower w) \<noteq> None)
             (map m_group (line_matches env uri_ignore_words line))"
proof -
  from assms have "process_matches env opts i (line_matches env uri_ignore_words line)
      (st\<lparr>st_fixed_words := {}, st_asked_for := {}\<rparr>) = Inr st'"
    by (simp add: parse_line_def)
  from process_matches_findings[OF this] show ?thesis by simp
qed

lemma runs_spans:
  assumes "(s, t) \<in> set (runs P pos start xs)" "pos = length done"
    "case start of None \<Rightarrow> True | Some a \<Rightarrow> a < pos \<and> (\<forall>j. a \<le> j \<and> j < pos \<longrightarrow> P (done ! j))"
  shows "s < t \<and> t \<le> length (done @ xs) \<and> (\<forall>j. s \<le> j \<and> j < t \<longrightarrow> P ((done @ xs) ! j))"
  using assms
proof (induction xs arbitrary: pos start "done")
  case Nil
  then show ?case by (cases start) auto
next
  case (Cons c cs)
  have len: "Suc pos = length (done @ [c])" using Cons.prems(2) by simp
  show ?case
  proof (cases start)
    case None
    show ?thesis
    proof (cases "P c")
      case True
      with None Cons.prems(1) have m: "(s, t) \<in> set (runs P (Suc pos) (Some pos) cs)" by simp
      have "case Some pos of None \<Rightarrow> True
          | Some a \<Rightarrow> a < Suc pos \<and> (\<forall>j. a \<le> j \<and> j < Suc pos \<longrightarrow> P ((done @ [c]) ! j))"
        using True Cons.prems(2) by (auto simp: nth_append less_Suc_eq)
      from Cons.IH[OF m len this] show ?thesis by simp
    next
      case False
      with None Cons.prems(1) have m: "(s, t) \<in> set (runs P (Suc pos) None cs)" by simp
      from Cons.IH[OF m len] show ?thesis by simp
    qed
  next
    case (Some a)
    show ?thesis
    proof (cases "P c")
      case True
      with Some Cons.prems(1) have m: "(s, t) \<in> set (runs P (Suc pos) (Some a) cs)" by simp
      have "case Some a of None \<Rightarrow> True
          | Some a \<Rightarrow> a < Suc pos \<and> (\<forall>j. a \<le> j \<and> j < Suc pos \<longrightarrow> P ((done @ [c]) ! j))"
        using True Some Cons.prems(2,3) by (auto simp: nth_append less_Suc_eq)
      from Cons.IH[OF m len this] show ?thesis by simp
    next
      case False
      with Some Cons.prems(1) have "(s, t) = (a, pos) \<or> (s, t) \<in> set (runs P (Suc pos) None cs)"
        by simp
      then show ?thesis
      proof
        assume "(s, t) = (a, pos)"
        with Some Cons.prems(2,3) show ?thesis by (auto simp: nth_append)
      next
        assume m: "(s, t) \<in> set (runs P (Suc pos) None cs)"
        from Cons.IH[OF m len] show ?thesis by simp
      qed
    qed
  qed
qed

lemma word_regex_def_spans:
  assumes "(s, t) \<in> set (word_regex_def e)"
  shows "s < t \<and> t \<le> length e \<and> (\<forall>j. s \<le> j \<and> j < t \<longrightarrow> e ! j \<noteq> CHR '' '')"
proof -
  have "s < t \<and> t \<le> length ([] @ e) \<and> (\<forall>j. s \<le> j \<and> j < t \<longrightarrow> word_regex_char (([] @ e) ! j))"
    using assms unfolding word_regex_def_def by (rule runs_spans) simp_all
  moreover have "\<not> word_regex_char CHR '' ''"
    by (simp add: word_regex_char_def is_word_char_def ascii_lowercase_def ascii_uppercase_def
        digits_def)
  ultimately show ?thesis by auto
qed

lemma line_matches_wildcard:
  assumes "''*'' \<in> uri_ignore_words" "spans_ok 0 (uri_finditer env line) (length line)"
  shows "line_matches env uri_ignore_words line =
         extract_words_iter env (rewritten '' '' (uri_finditer env line) line)"
  using assms by (simp add: line_matches_def Let_def sub_blank_rewritten)

lemma default_words_outside:
  assumes ok: "spans_ok 0 spans (length line)"
    and m: "m \<in> set (map (match_of (rewritten '' '' spans line))
                      (word_regex_def (rewritten '' '' spans line)))"
  shows "m_group m \<noteq> [] \<and>
         (\<exists>k. slice line k (k + length (m_group m)) = m_group m \<and>
              (\<forall>j. k \<le> j \<and> j < k + length (m_group m) \<longrightarrow> outside_spans spans j))"
proof -
  let ?e = "rewritten '' '' spans line"
  have e: "?e = replace_from '' '' 0 spans line"
    using ok by (simp add: rewritten_def replace_from_rewritten)
  from m obtain s t where st: "(s, t) \<in> set (word_regex_def ?e)" and mm: "m = match_of ?e (s, t)"
    by auto
  from word_regex_def_spans[OF st] have lt: "s < t" and tl: "t \<le> length ?e"
    and nb: "\<forall>j. s \<le> j \<and> j < t \<longrightarrow> ?e ! j \<noteq> CHR '' ''" by auto
  have g: "m_group m = slice ?e s t" by (simp add: mm match_of_def)
  have len: "length (m_group m) = t - s" unfolding g using lt tl by (simp add: slice_def)
  from replace_from_origin[OF ok lt tl[unfolded e] nb[unfolded e]]
  obtain k where k: "slice line k (k + (t - s)) = slice (replace_from '' '' 0 spans line) s t"
    "\<forall>j. k \<le> j \<and> j < k + (t - s) \<longrightarrow> outside_spans spans j" by blast
  have "m_group m \<noteq> []" using len lt by auto
  moreover have "slice line k (k + length (m_group m)) = m_group m"
  proof -
    have "slice line k (k + length (m_group m)) = slice line k (k + (t - s))"
      by (simp only: len)
    also have "\<dots> = slice (replace_from '' '' 0 spans line) s t" by (rule k(1))
    also have "\<dots> = m_group m" by (simp only: g e)
    finally show ?thesis .
  qed
  ultimately show ?thesis using k(2) unfolding len by blast
qed

text \<open>
  C6. With the wildcard among the URI ignore words, every match of the URI pattern on a
  line, however many there are, is replaced by one blank before the words are extracted:
  the text scanned is the line with a blank where a span starts, the character itself at
  every position outside the spans, and nothing else. The findings of the line are the
  dictionary words among the matches on that text. With the default word pattern every
  such match is a piece of the line that stands wholly outside the URI spans, so no word
  inside a span is flagged, and the text outside the spans is all scanned.
\<close>

theorem uri_wildcard_erases_spans:
  assumes star: "''*'' \<in> uri_ignore_words"
    and ok: "spans_ok 0 (uri_finditer env line) (length line)"
  shows "line_matches env uri_ignore_words line =
           extract_words_iter env (rewritten '' '' (uri_finditer env line) line) \<and>
         (\<forall>st st'. line \<notin> exclude_lines \<and>
              parse_line env opts exclude_lines uri_ignore_words i line st = Inr st' \<longrightarrow>
            (\<exists>new. st_findings st' = st_findings st @ new \<and>
               map f_word new = filter (\<lambda>w. st_misspellings st (lower w) \<noteq> None)
                 (map m_group (line_matches env uri_ignore_words line)))) \<and>
         (word_finditer env = word_regex_def \<and> ignore_finditer env = None \<longrightarrow>
            (\<forall>m\<in>set (line_matches env uri_ignore_words line).
               m_group m \<noteq> [] \<and>
               (\<exists>k. slice line k (k + length (m_group m)) = m_group m \<and>
                  (\<forall>j. k \<le> j \<and> j < k + length (m_group m) \<longrightarrow>
                     outside_spans (uri_finditer env line) j))))"
proof (intro conjI allI impI ballI)
  show 1: "line_matches env uri_ignore_words line =
           extract_words_iter env (rewritten '' '' (uri_finditer env line) line)"
    using star ok by (rule line_matches_wildcard)
  fix m
  assume d: "word_finditer env = word_regex_def \<and> ignore_finditer env = None"
    and m: "m \<in> set (line_matches env uri_ignore_words line)"
  from m have "m \<in> set (map (match_of (rewritten '' '' (uri_finditer env line) line))
                      (word_regex_def (rewritten '' '' (uri_finditer env line) line)))"
    unfolding 1 using d by (simp add: extract_words_iter_def ignore_word_sub_def Let_def)
  from default_words_outside[OF ok this]
  show "m_group m \<noteq> []"
    and "\<exists>k. slice line k (k + length (m_group m)) = m_group m \<and>
           (\<forall>j. k \<le> j \<and> j < k + length (m_group m) \<longrightarrow>
              outside_spans (uri_finditer env line) j)"
    by blast+
next
  fix st st'
  assume "line \<notin> exclude_lines \<and>
      parse_line env opts exclude_lines uri_ignore_words i line st = Inr st'"
  then show "\<exists>new. st_findings st' = st_findings st @ new \<and>
               map f_word new = filter (\<lambda>w. st_misspellings st (lower w) \<noteq> None)
                 (map m_group (line_matches env uri_ignore_words line))"
    using parse_line_findings by blast
qed

theorem uri_wildcard_erases_spans_witness:
  "''*'' \<in> {''*''} \<and>
   uri_finditer (default_env None) ''see http://x.com/teh mail teh@x.org and ftp://y/teh teh\<newline>'' =
     [(4, 20), (26, 35), (40, 51)] \<and>
   spans_ok 0 (uri_finditer (default_env None) ''see http://x.com/teh mail teh@x.org and ftp://y/teh teh\<newline>'')
     (length ''see http://x.com/teh mail teh@x.org and ftp://y/teh teh\<newline>'') \<and>
   rewritten '' '' (uri_finditer (default_env None) ''see http://x.com/teh mail teh@x.org and ftp://y/teh teh\<newline>'')
     ''see http://x.com/teh mail teh@x.org and ftp://y/teh teh\<newline>'' = ''see   mail   and   teh\<newline>'' \<and>
   line_matches (default_env None) {''*''} ''see http://x.com/teh mail teh@x.org and ftp://y/teh teh\<newline>'' =
     extract_words_iter (default_env None)
       (rewritten '' '' (uri_finditer (default_env None) ''see http://x.com/teh mail teh@x.org and ftp://y/teh teh\<newline>'')
          ''see http://x.com/teh mail teh@x.org and ftp://y/teh teh\<newline>'') \<and>
   map m_group (line_matches (default_env None) {''*''}
       ''see http://x.com/teh mail teh@x.org and ftp://y/teh teh\<newline>'') =
     [''see'', ''mail'', ''and'', ''teh''] \<and>
   list_all (\<lambda>m. m_group m \<noteq> [] \<and>
       (\<exists>k. slice ''see http://x.com/teh mail teh@x.org and ftp://y/teh teh\<newline>'' k (k + length (m_group m)) =
              m_group m \<and>
          (\<forall>j. k \<le> j \<and> j < k + length (m_group m) \<longrightarrow>
             outside_spans (uri_finditer (default_env None)
               ''see http://x.com/teh mail teh@x.org and ftp://y/teh teh\<newline>'') j)))
     (line_matches (default_env None) {''*''} ''see http://x.com/teh mail teh@x.org and ftp://y/teh teh\<newline>'') \<and>
   (\<exists>new. st_findings (projr (parse_line (default_env None) (demo_options 0 False) {} {''*''} 0
              ''see http://x.com/teh mail teh@x.org and ftp://y/teh teh\<newline>''
              (demo_state [''see http://x.com/teh mail teh@x.org and ftp://y/teh teh\<newline>'']))) =
        st_findings (demo_state [''see http://x.com/teh mail teh@x.org and ftp://y/teh teh\<newline>'']) @ new \<and>
      map f_word new =
        filter (\<lambda>w. st_misspellings
                  (demo_state [''see http://x.com/teh mail teh@x.org and ftp://y/teh teh\<newline>''])
                  (lower w) \<noteq> None)
          (map m_group (line_matches (default_env None) {''*''}
             ''see http://x.com/teh mail teh@x.org and ftp://y/teh teh\<newline>''))) \<and>
   map f_word (st_findings (projr (demo_run {''*''} (demo_options 0 False)
      [''see http://x.com/teh mail teh@x.org and ftp://y/teh teh\<newline>''] []))) = [''teh''] \<and>
   st_bad_count (projr (demo_run {''*''} (demo_options 0 False)
      [''see http://x.com/teh mail teh@x.org and ftp://y/teh teh\<newline>''] [])) = 1 \<and>
   map f_word (st_findings (projr (demo_run {} (demo_options 0 False)
      [''see http://x.com/teh mail teh@x.org and ftp://y/teh teh\<newline>''] []))) =
     [''teh'', ''teh'', ''teh'', ''teh'']"
proof -
  let ?E = "default_env None"
  let ?L = "''see http://x.com/teh mail teh@x.org and ftp://y/teh teh\<newline>''"
  let ?O = "demo_options 0 False"
  let ?st = "demo_state [?L]"
  let ?P = "parse_line ?E ?O {} {''*''} 0 ?L ?st"
  have h: "''*'' \<in> {''*''}" by simp
  have u: "uri_finditer ?E ?L = [(4, 20), (26, 35), (40, 51)]" by code_simp
  have ok: "spans_ok 0 (uri_finditer ?E ?L) (length ?L)" by code_simp
  have rw: "rewritten '' '' (uri_finditer ?E ?L) ?L = ''see   mail   and   teh\<newline>''" by code_simp
  note t = uri_wildcard_erases_spans[OF h ok, where opts = ?O and exclude_lines = "{}" and i = 0]
  from t have a: "line_matches ?E {''*''} ?L =
      extract_words_iter ?E (rewritten '' '' (uri_finditer ?E ?L) ?L)"
    by (rule conjunct1)
  have g: "map m_group (line_matches ?E {''*''} ?L) = [''see'', ''mail'', ''and'', ''teh'']"
    by code_simp
  have d: "word_finditer ?E = word_regex_def \<and> ignore_finditer ?E = None"
    by (simp add: default_env_def)
  from t have "word_finditer ?E = word_regex_def \<and> ignore_finditer ?E = None \<longrightarrow>
      (\<forall>m\<in>set (line_matches ?E {''*''} ?L). m_group m \<noteq> [] \<and>
         (\<exists>k. slice ?L k (k + length (m_group m)) = m_group m \<and>
            (\<forall>j. k \<le> j \<and> j < k + length (m_group m) \<longrightarrow>
               outside_spans (uri_finditer ?E ?L) j)))"
    by (rule conjunct2[OF conjunct2])
  from this d have "\<forall>m\<in>set (line_matches ?E {''*''} ?L). m_group m \<noteq> [] \<and>
         (\<exists>k. slice ?L k (k + length (m_group m)) = m_group m \<and>
            (\<forall>j. k \<le> j \<and> j < k + length (m_group m) \<longrightarrow>
               outside_spans (uri_finditer ?E ?L) j))" by (rule mp)
  then have b: "list_all (\<lambda>m. m_group m \<noteq> [] \<and>
         (\<exists>k. slice ?L k (k + length (m_group m)) = m_group m \<and>
            (\<forall>j. k \<le> j \<and> j < k + length (m_group m) \<longrightarrow>
               outside_spans (uri_finditer ?E ?L) j))) (line_matches ?E {''*''} ?L)"
    unfolding list_all_iff .
  have r: "\<not> isl ?P" by code_simp
  then have e: "parse_line ?E ?O {} {''*''} 0 ?L ?st = Inr (projr ?P)"
    by (rule sum.collapse(2)[symmetric])
  from t have "\<forall>st st'. ?L \<notin> {} \<and> parse_line ?E ?O {} {''*''} 0 ?L st = Inr st' \<longrightarrow>
            (\<exists>new. st_findings st' = st_findings st @ new \<and>
               map f_word new = filter (\<lambda>w. st_misspellings st (lower w) \<noteq> None)
                 (map m_group (line_matches ?E {''*''} ?L)))"
    by (rule conjunct1[OF conjunct2])
  then have "?L \<notin> {} \<and> parse_line ?E ?O {} {''*''} 0 ?L ?st = Inr (projr ?P) \<longrightarrow>
            (\<exists>new. st_findings (projr ?P) = st_findings ?st @ new \<and>
               map f_word new = filter (\<lambda>w. st_misspellings ?st (lower w) \<noteq> None)
                 (map m_group (line_matches ?E {''*''} ?L)))"
    by (elim allE)
  moreover have "?L \<notin> {} \<and> parse_line ?E ?O {} {''*''} 0 ?L ?st = Inr (projr ?P)"
    using e by simp
  ultimately have c: "\<exists>new. st_findings (projr ?P) = st_findings ?st @ new \<and>
               map f_word new = filter (\<lambda>w. st_misspellings ?st (lower w) \<noteq> None)
                 (map m_group (line_matches ?E {''*''} ?L))" by (rule mp)
  have f: "map f_word (st_findings (projr (demo_run {''*''} ?O [?L] []))) = [''teh'']"
    by code_simp
  have n: "st_bad_count (projr (demo_run {''*''} ?O [?L] [])) = 1" by code_simp
  have w: "map f_word (st_findings (projr (demo_run {} ?O [?L] []))) =
     [''teh'', ''teh'', ''teh'', ''teh'']" by code_simp
  from h u ok rw a g b c f n w show ?thesis by (intro conjI)
qed

section \<open>Applying a fix\<close>

text \<open>
  The default substitution goes on after an occurrence it has replaced: at a whole-word
  occurrence of the word the replacement is inserted and the scan continues with the rest
  of the line.
\<close>

lemma sub_word_scan_skip:
  "0 < k \<Longrightarrow> k \<le> length s \<Longrightarrow>
   sub_word_scan w r prev k s = sub_word_scan w r (Some (s ! (k - 1))) 0 (drop k s)"
proof (induction s arbitrary: k prev)
  case Nil
  then show ?case by simp
next
  case (Cons c cs)
  show ?case
  proof (cases "k = 1")
    case True
    then show ?thesis by simp
  next
    case False
    with Cons.prems have "0 < k - 1" "k - 1 \<le> length cs" by auto
    from Cons.IH[OF this] Cons.prems False show ?thesis
      by (cases k) (auto simp: nth_Cons split: nat.splits)
  qed
qed

lemma sub_word_scan_occurrence:
  assumes "word \<noteq> []" "matches_word_at word prev (word @ rest)"
  shows "sub_word_scan word repl prev 0 (word @ rest) =
         repl @ sub_word_scan word repl (Some (last word)) 0 rest"
proof -
  from assms(1) obtain c cs where w: "word = c # cs" by (cases word) auto
  have "sub_word_scan word repl prev 0 (word @ rest) =
        repl @ sub_word_scan word repl (Some c) (length cs) (cs @ rest)"
    using assms(2) by (simp add: w)
  also have "sub_word_scan word repl (Some c) (length cs) (cs @ rest) =
        sub_word_scan word repl (Some (last word)) 0 rest"
  proof (cases cs)
    case Nil
    then show ?thesis by (simp add: w)
  next
    case (Cons d ds)
    then have "sub_word_scan word repl (Some c) (length cs) (cs @ rest) =
       sub_word_scan word repl (Some ((cs @ rest) ! (length cs - 1))) 0 (drop (length cs) (cs @ rest))"
      by (intro sub_word_scan_skip) auto
    moreover have "(cs @ rest) ! (length cs - 1) = last word"
      using Cons by (simp add: w nth_append last_conv_nth)
    ultimately show ?thesis by simp
  qed
  finally show ?thesis .
qed

lemma matches_word_at_iff:
  assumes w: "word \<noteq> []"
    and prev: "prev = (if done = [] then None else Some (last done))"
  shows "matches_word_at word prev s = whole_word_at word (done @ s) (length done)"
proof (cases "take (length word) s = word")
  case False
  then show ?thesis by (simp add: matches_word_at_def whole_word_at_def slice_def)
next
  case True
  let ?n = "length word" and ?L = "done @ s" and ?p = "length done"
  have "length (take ?n s) = ?n" unfolding True ..
  then have ln: "?n \<le> length s" by simp
  have sl: "slice ?L ?p (?p + ?n) = word" using True by (simp add: slice_def)
  have n0: "0 < ?n" using w by simp
  have first: "?L ! ?p = hd word"
    using True w ln n0 by (metis hd_conv_nth nth_append_length_plus add.right_neutral nth_take)
  have lastc: "?L ! (?p + ?n - 1) = last word"
  proof -
    have "?L ! (?p + (?n - 1)) = s ! (?n - 1)" by (rule nth_append_length_plus)
    also have "\<dots> = take ?n s ! (?n - 1)" using n0 by simp
    also have "\<dots> = last word" unfolding True using w by (simp add: last_conv_nth)
    finally show ?thesis using n0 by simp
  qed
  have before: "(0 < ?p \<and> is_word_char (?L ! (?p - 1))) =
      (case prev of None \<Rightarrow> False | Some c \<Rightarrow> is_word_char c)"
  proof (cases "done = []")
    case True
    then show ?thesis by (simp add: prev)
  next
    case False
    then have "?L ! (?p - 1) = last done" by (simp add: nth_append last_conv_nth)
    with False show ?thesis by (simp add: prev)
  qed
  have after: "(?p + ?n < length ?L \<and> is_word_char (?L ! (?p + ?n))) =
      (case (case drop ?n s of [] \<Rightarrow> None | d # _ \<Rightarrow> Some d) of
         None \<Rightarrow> False | Some c \<Rightarrow> is_word_char c)"
  proof (cases "drop ?n s")
    case Nil
    then show ?thesis by simp
  next
    case (Cons d ds)
    then have "?n < length s" by (metis drop_eq_Nil list.distinct(1) not_le)
    moreover have "?L ! (?p + ?n) = d"
      using Cons by (metis nth_append_length_plus nth_via_drop)
    ultimately show ?thesis using Cons by simp
  qed
  show ?thesis
    unfolding matches_word_at_def whole_word_at_def boundary_def
    using True ln sl first lastc before after by simp
qed

lemma spans_ok_mono: "spans_ok pos spans n \<Longrightarrow> pos' \<le> pos \<Longrightarrow> spans_ok pos' spans n"
  by (cases spans) auto

lemma replace_from_step:
  assumes "spans_ok (Suc pos) spans (length line)"
  shows "replace_from repl pos spans line = line ! pos # replace_from repl (Suc pos) spans line"
proof (cases spans)
  case Nil
  with assms show ?thesis by (simp add: Cons_nth_drop_Suc)
next
  case (Cons span rest)
  with assms have a: "Suc pos \<le> fst span" "fst span < snd span" "spans_ok (snd span) rest (length line)"
    by auto
  from a(3) have "snd span \<le> length line" by (rule spans_ok_le)
  with a have "pos < length line" "pos < fst span" by auto
  then have "drop pos line = line ! pos # drop (Suc pos) line"
    and "fst span - pos = Suc (fst span - Suc pos)"
    by (simp_all add: Cons_nth_drop_Suc)
  then have "slice line pos (fst span) = line ! pos # slice line (Suc pos) (fst span)"
    by (simp add: slice_def)
  then show ?thesis by (simp add: Cons)
qed

lemma sub_word_scan_spans:
  assumes w: "word \<noteq> []"
  shows "prev = (if done = [] then None else Some (last done)) \<Longrightarrow>
     \<exists>ps. spans_ok (length done) (word_spans word ps) (length (done @ s)) \<and>
          (\<forall>p\<in>set ps. whole_word_at word (done @ s) p) \<and>
          (\<forall>q. length done \<le> q \<and> whole_word_at word (done @ s) q \<longrightarrow>
               (\<exists>p\<in>set ps. p \<le> q \<and> q < p + length word)) \<and>
          sub_word_scan word repl prev 0 s =
            replace_from repl (length done) (word_spans word ps) (done @ s)"
proof (induction "length s" arbitrary: s "done" prev rule: less_induct)
  case less
  let ?L = "done @ s" and ?p = "length done" and ?n = "length word"
  show ?case
  proof (cases s)
    case Nil
    have "\<not> whole_word_at word ?L q" if "?p \<le> q" for q
    proof
      assume "whole_word_at word ?L q"
      then have "q + ?n \<le> length ?L" by (simp add: whole_word_at_def)
      moreover have "0 < ?n" using w by simp
      ultimately show False using that Nil by simp
    qed
    then show ?thesis
      using Nil by (intro exI[of _ "[]"]) (simp add: word_spans_def)
  next
    case (Cons c cs)
    show ?thesis
    proof (cases "matches_word_at word prev s")
      case True
      then have occ: "whole_word_at word ?L ?p"
        using matches_word_at_iff[OF w less.prems] by simp
      from True have tk: "take ?n s = word" by (simp add: matches_word_at_def)
      define post where "post = drop ?n s"
      have s: "s = word @ post" unfolding post_def using tk by (metis append_take_drop_id)
      have shorter: "length post < length s" using s w by simp
      have prev': "Some (last word) = (if done @ word = [] then None else Some (last (done @ word)))"
        using w by simp
      from less.hyps[OF shorter prev'] obtain ps where
        ok: "spans_ok (length (done @ word)) (word_spans word ps) (length ((done @ word) @ post))"
        and all: "\<forall>p\<in>set ps. whole_word_at word ((done @ word) @ post) p"
        and cov: "\<forall>q. length (done @ word) \<le> q \<and> whole_word_at word ((done @ word) @ post) q \<longrightarrow>
               (\<exists>p\<in>set ps. p \<le> q \<and> q < p + ?n)"
        and eq: "sub_word_scan word repl (Some (last word)) 0 post =
            replace_from repl (length (done @ word)) (word_spans word ps) ((done @ word) @ post)"
        by blast
      have L: "(done @ word) @ post = ?L" using s by simp
      have scan: "sub_word_scan word repl prev 0 s =
          repl @ sub_word_scan word repl (Some (last word)) 0 post"
        using sub_word_scan_occurrence[OF w, of prev post repl] True s by simp
      have 1: "spans_ok ?p (word_spans word (?p # ps)) (length ?L)"
        using ok w unfolding L by (simp add: word_spans_def)
      have 2: "\<forall>p\<in>set (?p # ps). whole_word_at word ?L p"
        using occ all unfolding L by simp
      have 3: "\<forall>q. ?p \<le> q \<and> whole_word_at word ?L q \<longrightarrow>
               (\<exists>p\<in>set (?p # ps). p \<le> q \<and> q < p + ?n)"
      proof (intro allI impI)
        fix q assume q: "?p \<le> q \<and> whole_word_at word ?L q"
        show "\<exists>p\<in>set (?p # ps). p \<le> q \<and> q < p + ?n"
        proof (cases "q < ?p + ?n")
          case True
          with q show ?thesis by simp
        next
          case False
          then have "length (done @ word) \<le> q" by simp
          with q cov[unfolded L] obtain p where "p \<in> set ps" "p \<le> q \<and> q < p + ?n" by blast
          then show ?thesis by auto
        qed
      qed
      have 4: "sub_word_scan word repl prev 0 s =
            replace_from repl ?p (word_spans word (?p # ps)) ?L"
        unfolding scan eq L by (simp add: word_spans_def slice_def)
      from 1 2 3 4 show ?thesis by blast
    next
      case False
      then have nocc: "\<not> whole_word_at word ?L ?p"
        using matches_word_at_iff[OF w less.prems] by simp
      have shorter: "length cs < length s" using Cons by simp
      have prev': "Some c = (if done @ [c] = [] then None else Some (last (done @ [c])))" by simp
      from less.hyps[OF shorter prev'] obtain ps where
        ok: "spans_ok (length (done @ [c])) (word_spans word ps) (length ((done @ [c]) @ cs))"
        and all: "\<forall>p\<in>set ps. whole_word_at word ((done @ [c]) @ cs) p"
        and cov: "\<forall>q. length (done @ [c]) \<le> q \<and> whole_word_at word ((done @ [c]) @ cs) q \<longrightarrow>
               (\<exists>p\<in>set ps. p \<le> q \<and> q < p + ?n)"
        and eq: "sub_word_scan word repl (Some c) 0 cs =
            replace_from repl (length (done @ [c])) (word_spans word ps) ((done @ [c]) @ cs)"
        by blast
      have L: "(done @ [c]) @ cs = ?L" using Cons by simp
      have len: "length (done @ [c]) = Suc ?p" by simp
      have scan: "sub_word_scan word repl prev 0 s = c # sub_word_scan word repl (Some c) 0 cs"
        using False Cons by simp
      have ok': "spans_ok (Suc ?p) (word_spans word ps) (length ?L)"
        using ok unfolding L len .
      have 1: "spans_ok ?p (word_spans word ps) (length ?L)"
        using ok' by (rule spans_ok_mono) simp
      have 2: "\<forall>p\<in>set ps. whole_word_at word ?L p" using all unfolding L .
      have 3: "\<forall>q. ?p \<le> q \<and> whole_word_at word ?L q \<longrightarrow>
               (\<exists>p\<in>set ps. p \<le> q \<and> q < p + ?n)"
      proof (intro allI impI)
        fix q assume q: "?p \<le> q \<and> whole_word_at word ?L q"
        with nocc have "q \<noteq> ?p" by auto
        with q have "Suc ?p \<le> q" by simp
        with q cov[unfolded L len] show "\<exists>p\<in>set ps. p \<le> q \<and> q < p + ?n" by blast
      qed
      have "replace_from repl ?p (word_spans word ps) ?L =
          ?L ! ?p # replace_from repl (Suc ?p) (word_spans word ps) ?L"
        using ok' by (rule replace_from_step)
      moreover have "?L ! ?p = c" using Cons by simp
      ultimately have 4: "sub_word_scan word repl prev 0 s =
            replace_from repl ?p (word_spans word ps) ?L"
        unfolding scan eq L len by simp
      from 1 2 3 4 show ?thesis by blast
    qed
  qed
qed

lemma sub_whole_word_all:
  assumes "word \<noteq> []" "list_all word_regex_char word" "CHR 0x5C \<notin> set repl"
  shows "\<exists>ps. all_occurrences word line ps \<and>
           sub_whole_word word repl line = Inr (rewritten repl (word_spans word ps) line)"
proof -
  from sub_word_scan_spans[OF assms(1), of None "[]" line repl]
  obtain ps where ok: "spans_ok 0 (word_spans word ps) (length line)"
    and all: "\<forall>p\<in>set ps. whole_word_at word line p"
    and cov: "\<forall>q. whole_word_at word line q \<longrightarrow> (\<exists>p\<in>set ps. p \<le> q \<and> q < p + length word)"
    and eq: "sub_word_scan word repl None 0 line = replace_from repl 0 (word_spans word ps) line"
    by auto
  have "sub_whole_word word repl line = Inr (rewritten repl (word_spans word ps) line)"
    using assms eq ok by (simp add: sub_whole_word_def rewritten_def replace_from_rewritten)
  moreover have "all_occurrences word line ps"
    using ok all cov by (simp add: all_occurrences_def)
  ultimately show ?thesis by blast
qed

text \<open>
  C2, as the code has it. When write mode is enabled, the decision for a matched
  dictionary word is to fix, and the word was not fixed on the line before, the line is
  replaced by the result of one whole-word substitution over the whole line. For the
  substitution of a word of the default word pattern by a replacement without a
  backslash, that result is the line with every whole-word occurrence of the exact-case
  word replaced, from the left and not the first only, and all other text kept. The word
  joins the words fixed on the line, the file is marked as changed and the finding is not
  counted. A later match on the line with the same text changes neither the line nor the
  count.
\<close>

theorem write_fix_step:
  assumes hit: "st_misspellings st (lower (m_group match)) = Some misspelling"
    and fresh: "m_group match \<notin> st_fixed_words st"
    and idx: "i < length (st_lines st)"
    and w: "write_changes opts"
    and dec: "ar_fix (resolve opts match misspelling st)"
    and re: "word_sub env = sub_whole_word"
    and lit: "m_group match \<noteq> [] \<and> list_all word_regex_char (m_group match)"
    and plain: "CHR 0x5C \<notin> set (ar_fixword (resolve opts match misspelling st))"
  shows "\<exists>st' ps. process_match env opts i match st = Inr st' \<and>
      all_occurrences (m_group match) (st_lines st ! i) ps \<and>
      st_lines st' = (st_lines st)
        [i := rewritten (ar_fixword (resolve opts match misspelling st))
                (word_spans (m_group match) ps) (st_lines st ! i)] \<and>
      st_changed st' \<and>
      st_fixed_words st' = insert (m_group match) (st_fixed_words st) \<and>
      st_bad_count st' = st_bad_count st \<and>
      (\<forall>match2 st''. m_group match2 = m_group match \<and>
           process_match env opts i match2 st' = Inr st'' \<longrightarrow>
         st_lines st'' = st_lines st' \<and> st_changed st'' \<and>
         st_fixed_words st'' = st_fixed_words st' \<and> st_bad_count st'' = st_bad_count st')"
proof -
  let ?fixword = "ar_fixword (resolve opts match misspelling st)"
  from lit plain obtain ps where occ: "all_occurrences (m_group match) (st_lines st ! i) ps"
    and sub: "sub_whole_word (m_group match) ?fixword (st_lines st ! i) =
        Inr (rewritten ?fixword (word_spans (m_group match) ps) (st_lines st ! i))"
    using sub_whole_word_all[of "m_group match" ?fixword "st_lines st ! i"] by blast
  obtain st' where 1: "process_match env opts i match st = Inr st'"
    and 2: "st_lines st' = (st_lines st)
        [i := rewritten ?fixword (word_spans (m_group match) ps) (st_lines st ! i)]"
      "st_changed st'"
      "st_fixed_words st' = insert (m_group match) (st_fixed_words st)"
      "st_bad_count st' = st_bad_count st"
    using hit fresh w dec sub by (simp add: process_match_def Let_def re)
  have 3: "st_lines st'' = st_lines st' \<and> st_changed st'' \<and>
         st_fixed_words st'' = st_fixed_words st' \<and> st_bad_count st'' = st_bad_count st'"
    if "m_group match2 = m_group match" "process_match env opts i match2 st' = Inr st''"
    for match2 st''
  proof -
    have "m_group match2 \<in> st_fixed_words st'" using that(1) 2(3) by simp
    with that(2) 2(2) show ?thesis
      by (auto simp: process_match_def Let_def split: option.splits)
  qed
  from 1 occ 2 3 show ?thesis by blast
qed

theorem write_fix_step_witness:
  "st_misspellings (demo_state [''teh tehran teh ateh\<newline>'']) (lower ''teh'') =
     Some \<lparr>ms_data = ''the'', ms_fix = True, ms_reason = []\<rparr> \<and>
   ''teh'' \<notin> st_fixed_words (demo_state [''teh tehran teh ateh\<newline>'']) \<and>
   write_changes (demo_options 0 True) \<and>
   word_sub (default_env None) = sub_whole_word \<and>
   (\<exists>st' ps. process_match (default_env None) (demo_options 0 True) 0
            \<lparr>m_start = 0, m_end = 3, m_group = ''teh''\<rparr>
            (demo_state [''teh tehran teh ateh\<newline>'']) = Inr st' \<and>
      all_occurrences ''teh'' ''teh tehran teh ateh\<newline>'' ps \<and>
      st_lines st' = [rewritten ''the'' (word_spans ''teh'' ps) ''teh tehran teh ateh\<newline>''] \<and>
      st_changed st' \<and> st_fixed_words st' = {''teh''} \<and> st_bad_count st' = 0) \<and>
   st_lines (projr (process_match (default_env None) (demo_options 0 True) 0
            \<lparr>m_start = 0, m_end = 3, m_group = ''teh''\<rparr>
            (demo_state [''teh tehran teh ateh\<newline>'']))) = [''the tehran the ateh\<newline>''] \<and>
   whole_word_at ''teh'' ''teh tehran teh ateh\<newline>'' 0 \<and>
   \<not> whole_word_at ''teh'' ''teh tehran teh ateh\<newline>'' 4 \<and>
   whole_word_at ''teh'' ''teh tehran teh ateh\<newline>'' 11 \<and>
   \<not> whole_word_at ''teh'' ''teh tehran teh ateh\<newline>'' 16 \<and>
   rewritten ''the'' (word_spans ''teh'' [0, 11]) ''teh tehran teh ateh\<newline>'' =
     ''the tehran the ateh\<newline>''"
proof -
  let ?L = "''teh tehran teh ateh\<newline>''"
  let ?st = "demo_state [?L]"
  let ?m = "\<lparr>m_start = 0, m_end = 3, m_group = ''teh''\<rparr>"
  let ?e = "\<lparr>ms_data = ''the'', ms_fix = True, ms_reason = []\<rparr>"
  let ?o = "demo_options 0 True"
  have hit: "st_misspellings ?st (lower (m_group ?m)) = Some ?e" by code_simp
  have fresh: "m_group ?m \<notin> st_fixed_words ?st" by (simp add: demo_state_def)
  have idx: "0 < length (st_lines ?st)" by (simp add: demo_state_def)
  have w: "write_changes ?o" by (simp add: demo_options_def)
  have dec: "ar_fix (resolve ?o ?m ?e ?st)" by code_simp
  have re: "word_sub (default_env None) = sub_whole_word" by (simp add: default_env_def)
  have lit: "m_group ?m \<noteq> [] \<and> list_all word_regex_char (m_group ?m)" by code_simp
  have fw: "ar_fixword (resolve ?o ?m ?e ?st) = ''the''" by code_simp
  have plain: "CHR 0x5C \<notin> set (ar_fixword (resolve ?o ?m ?e ?st))" unfolding fw by simp
  have li: "st_lines ?st ! 0 = ?L" by (simp add: demo_state_def)
  from write_fix_step[OF hit fresh idx w dec re lit plain]
  obtain st' ps where 1: "process_match (default_env None) ?o 0 ?m ?st = Inr st'"
    and occ: "all_occurrences (m_group ?m) (st_lines ?st ! 0) ps"
    and 2: "st_lines st' = (st_lines ?st)
        [0 := rewritten (ar_fixword (resolve ?o ?m ?e ?st)) (word_spans (m_group ?m) ps)
                (st_lines ?st ! 0)]"
    and 3: "st_changed st'"
    and 4: "st_fixed_words st' = insert (m_group ?m) (st_fixed_words ?st)"
    and 5: "st_bad_count st' = st_bad_count ?st"
    by (elim exE conjE)
  from occ have occ2: "all_occurrences ''teh'' ?L ps" unfolding li by simp
  from 2 have l2: "st_lines st' = [rewritten ''the'' (word_spans ''teh'' ps) ?L]"
    unfolding fw li by (simp add: demo_state_def)
  from 4 have l4: "st_fixed_words st' = {''teh''}" by (simp add: demo_state_def)
  from 5 have l5: "st_bad_count st' = 0" by (simp add: demo_state_def)
  have h1: "st_misspellings ?st (lower ''teh'') = Some ?e" using hit by simp
  have h2: "''teh'' \<notin> st_fixed_words ?st" using fresh by simp
  from 1 occ2 l2 3 l4 l5 have ex: "\<exists>st' ps. process_match (default_env None) ?o 0 ?m ?st = Inr st' \<and>
      all_occurrences ''teh'' ?L ps \<and>
      st_lines st' = [rewritten ''the'' (word_spans ''teh'' ps) ?L] \<and>
      st_changed st' \<and> st_fixed_words st' = {''teh''} \<and> st_bad_count st' = 0" by blast
  have v: "st_lines (projr (process_match (default_env None) ?o 0 ?m ?st)) = [''the tehran the ateh\<newline>'']"
    by code_simp
  have a0: "whole_word_at ''teh'' ?L 0" by code_simp
  have a4: "\<not> whole_word_at ''teh'' ?L 4" by code_simp
  have a11: "whole_word_at ''teh'' ?L 11" by code_simp
  have a16: "\<not> whole_word_at ''teh'' ?L 16" by code_simp
  have rw: "rewritten ''the'' (word_spans ''teh'' [0, 11]) ?L = ''the tehran the ateh\<newline>''"
    by code_simp
  from h1 h2 w re ex v a0 a4 a11 a16 rw show ?thesis by (intro conjI)
qed

text \<open>
  C2, as stated, fails: on the line \<open>teh teh\<close> the step for the first match already
  replaces both occurrences; replacing the first remaining occurrence would leave
  \<open>the teh\<close>.
\<close>

theorem sub_replaces_every_occurrence_counterexample:
  "\<not> isl (process_match (default_env None) (demo_options 0 True) 0
            \<lparr>m_start = 0, m_end = 3, m_group = ''teh''\<rparr> (demo_state [''teh teh\<newline>''])) \<and>
   st_lines (projr (process_match (default_env None) (demo_options 0 True) 0
            \<lparr>m_start = 0, m_end = 3, m_group = ''teh''\<rparr> (demo_state [''teh teh\<newline>'']))) =
     [''the the\<newline>''] \<and>
   [''the the\<newline>''] \<noteq> [''the teh\<newline>'']"
  by code_simp

end
